theory Spec2Isabelle
  imports Main "HOL-Library.Word" "HOL-Library.Sublist"
begin

unbundle bit_operations_syntax

section \<open>Python strings and sequence operations\<close>

text \<open>
  A Python \<^verbatim>\<open>str\<close> is modelled as a \<^typ>\<open>string\<close>: one \<^typ>\<open>char\<close> per code point,
  read as the code points 0..255. \<^verbatim>\<open>len\<close> is \<^const>\<open>length\<close>. Python integers are
  \<^typ>\<open>int\<close>. An exception is a value of \<open>py_error\<close>, returned on the left of a sum.
\<close>

datatype py_error = IndexError

text \<open>\<^verbatim>\<open>text[i]\<close>: a negative index counts from the end, anything out of range raises.\<close>

definition py_getitem :: "string \<Rightarrow> int \<Rightarrow> py_error + char" where
  "py_getitem s i =
     (let n = int (length s); j = (if i < 0 then n + i else i)
      in if 0 \<le> j \<and> j < n then Inr (s ! nat j) else Inl IndexError)"

text \<open>
  \<^verbatim>\<open>text[a:b]\<close>: a negative bound has the length added once, then both bounds are
  clamped to \<open>[0, len]\<close>; the slice is empty when the bounds cross.
\<close>

definition slice_bound :: "nat \<Rightarrow> int \<Rightarrow> nat" where
  "slice_bound n i = (let j = (if i < 0 then int n + i else i) in nat (min (max j 0) (int n)))"

definition py_slice :: "string \<Rightarrow> int \<Rightarrow> int \<Rightarrow> string" where
  "py_slice s a b = (let lo = slice_bound (length s) a; hi = slice_bound (length s) b
                     in take (hi - lo) (drop lo s))"

text \<open>\<^verbatim>\<open>str.isspace\<close> on one character, for the code points below 256.\<close>

definition isspace :: "char \<Rightarrow> bool" where
  "isspace c = (let n = (of_char c :: nat)
                in (9 \<le> n \<and> n \<le> 13) \<or> (28 \<le> n \<and> n \<le> 32) \<or> n = 133 \<or> n = 160)"

text \<open>\<^verbatim>\<open>str.strip()\<close>: drops the leading and the trailing whitespace.\<close>

definition strip :: "string \<Rightarrow> string" where
  "strip s = rev (dropWhile isspace (rev (dropWhile isspace s)))"

text \<open>\<^verbatim>\<open>sep.join(parts)\<close>.\<close>

fun join :: "string \<Rightarrow> string list \<Rightarrow> string" where
  "join sep [] = []"
| "join sep [p] = p"
| "join sep (p # q # ps) = p @ sep @ join sep (q # ps)"

text \<open>\<^verbatim>\<open>str(n)\<close> for a natural number: its decimal digits.\<close>

fun digits_acc :: "nat \<Rightarrow> string \<Rightarrow> string" where
  "digits_acc n acc =
     (if n < 10 then (''0123456789'' ! n) # acc
      else digits_acc (n div 10) ((''0123456789'' ! (n mod 10)) # acc))"

definition str_nat :: "nat \<Rightarrow> string" where
  "str_nat n = digits_acc n []"

text \<open>\<^verbatim>\<open>range(a, b, -1)\<close> as a list: \<open>a, a - 1, \<dots>, b + 1\<close>.\<close>

definition range_down :: "int \<Rightarrow> int \<Rightarrow> int list" where
  "range_down a b = rev [b + 1 .. a]"

section \<open>MD5 and the chunk identifier\<close>

text \<open>
  \<^verbatim>\<open>hashlib.md5(data).hexdigest()\<close> after RFC 1321, on 32-bit words, and
  \<^verbatim>\<open>str.encode()\<close> (UTF-8) for code points below 256.
\<close>

type_synonym byte = "8 word"
type_synonym w32 = "32 word"

definition utf8_encode :: "string \<Rightarrow> byte list" where
  "utf8_encode s = concat (map (\<lambda>c. let n = (of_char c :: nat) in
       if n < 128 then [of_nat n]
       else [of_nat (192 + n div 64), of_nat (128 + n mod 64)]) s)"

definition md5_K :: "w32 list" where
  "md5_K = [
    0xd76aa478, 0xe8c7b756, 0x242070db, 0xc1bdceee, 0xf57c0faf, 0x4787c62a, 0xa8304613, 0xfd469501,
    0x698098d8, 0x8b44f7af, 0xffff5bb1, 0x895cd7be, 0x6b901122, 0xfd987193, 0xa679438e, 0x49b40821,
    0xf61e2562, 0xc040b340, 0x265e5a51, 0xe9b6c7aa, 0xd62f105d, 0x02441453, 0xd8a1e681, 0xe7d3fbc8,
    0x21e1cde6, 0xc33707d6, 0xf4d50d87, 0x455a14ed, 0xa9e3e905, 0xfcefa3f8, 0x676f02d9, 0x8d2a4c8a,
    0xfffa3942, 0x8771f681, 0x6d9d6122, 0xfde5380c, 0xa4beea44, 0x4bdecfa9, 0xf6bb4b60, 0xbebfbc70,
    0x289b7ec6, 0xeaa127fa, 0xd4ef3085, 0x04881d05, 0xd9d4d039, 0xe6db99e5, 0x1fa27cf8, 0xc4ac5665,
    0xf4292244, 0x432aff97, 0xab9423a7, 0xfc93a039, 0x655b59c3, 0x8f0ccc92, 0xffeff47d, 0x85845dd1,
    0x6fa87e4f, 0xfe2ce6e0, 0xa3014314, 0x4e0811a1, 0xf7537e82, 0xbd3af235, 0x2ad7d2bb, 0xeb86d391]"

definition md5_S :: "nat list" where
  "md5_S = [7, 12, 17, 22, 7, 12, 17, 22, 7, 12, 17, 22, 7, 12, 17, 22,
            5, 9, 14, 20, 5, 9, 14, 20, 5, 9, 14, 20, 5, 9, 14, 20,
            4, 11, 16, 23, 4, 11, 16, 23, 4, 11, 16, 23, 4, 11, 16, 23,
            6, 10, 15, 21, 6, 10, 15, 21, 6, 10, 15, 21, 6, 10, 15, 21]"

definition rotl32 :: "w32 \<Rightarrow> nat \<Rightarrow> w32" where
  "rotl32 x n = (push_bit n x) OR (drop_bit (32 - n) x)"

text \<open>Little-endian bytes of a word, and a 32-bit word from four little-endian bytes.\<close>

definition le_bytes :: "nat \<Rightarrow> 'a::len word \<Rightarrow> byte list" where
  "le_bytes k w = map (\<lambda>i. ucast (drop_bit (8 * i) w)) [0..<k]"

definition le_word :: "byte list \<Rightarrow> w32" where
  "le_word bs = foldr (\<lambda>b acc. push_bit 8 acc OR ucast b) bs 0"

text \<open>Padding: the byte 0x80, zeros up to 56 modulo 64, the bit length on 8 bytes.\<close>

definition md5_pad :: "byte list \<Rightarrow> byte list" where
  "md5_pad m = m @ [0x80] @ replicate ((119 - length m mod 64) mod 64) 0
                 @ le_bytes 8 (of_nat (8 * length m) :: 64 word)"

fun blocks :: "nat \<Rightarrow> nat \<Rightarrow> 'a list \<Rightarrow> 'a list list" where
  "blocks 0 k xs = []"
| "blocks (Suc n) k xs = take k xs # blocks n k (drop k xs)"

definition md5_round :: "w32 list \<Rightarrow> (w32 \<times> w32 \<times> w32 \<times> w32) \<Rightarrow> nat \<Rightarrow> (w32 \<times> w32 \<times> w32 \<times> w32)" where
  "md5_round M st i = (case st of (A, B, C, D) \<Rightarrow>
     let F = (if i < 16 then (B AND C) OR (NOT B AND D)
              else if i < 32 then (D AND B) OR (NOT D AND C)
              else if i < 48 then B XOR C XOR D
              else C XOR (B OR NOT D));
         g = (if i < 16 then i
              else if i < 32 then (5 * i + 1) mod 16
              else if i < 48 then (3 * i + 5) mod 16
              else (7 * i) mod 16);
         F' = F + A + md5_K ! i + M ! g
     in (D, B + rotl32 F' (md5_S ! i), B, C))"

definition md5_block :: "(w32 \<times> w32 \<times> w32 \<times> w32) \<Rightarrow> byte list \<Rightarrow> (w32 \<times> w32 \<times> w32 \<times> w32)" where
  "md5_block h blk = (case h of (a0, b0, c0, d0) \<Rightarrow>
     (case foldl (md5_round (map le_word (blocks 16 4 blk))) h [0..<64] of
        (A, B, C, D) \<Rightarrow> (a0 + A, b0 + B, c0 + C, d0 + D)))"

definition md5_digest :: "byte list \<Rightarrow> byte list" where
  "md5_digest m = (let p = md5_pad m in
     case foldl md5_block (0x67452301, 0xefcdab89, 0x98badcfe, 0x10325476)
            (blocks (length p div 64) 64 p) of
       (a, b, c, d) \<Rightarrow> concat (map (le_bytes 4) [a, b, c, d]))"

definition hex_digit :: "nat \<Rightarrow> char" where
  "hex_digit n = ''0123456789abcdef'' ! n"

definition hexdigest :: "byte list \<Rightarrow> string" where
  "hexdigest bs = concat (map (\<lambda>b. [hex_digit (unat b div 16), hex_digit (unat b mod 16)]) bs)"

definition md5_hexdigest :: "byte list \<Rightarrow> string" where
  "md5_hexdigest m = hexdigest (md5_digest m)"

text \<open>\<^verbatim>\<open>hashlib.md5(f"{url}:{chunk_index}".encode()).hexdigest()[:16]\<close>\<close>

definition make_chunk_id :: "string \<Rightarrow> nat \<Rightarrow> string" where
  "make_chunk_id url chunk_index = take 16 (md5_hexdigest (utf8_encode (url @ '':'' @ str_nat chunk_index)))"

section \<open>The chunker\<close>

text \<open>\<^verbatim>\<open>TextChunk\<close> of \<^verbatim>\<open>app/schemas/schemas.py\<close>; \<open>id\<close> and \<open>text\<close> are the fields
  \<open>chunk_id\<close> and \<open>chunk_text\<close>.\<close>

record TextChunk =
  chunk_id :: string
  chunk_text :: string
  start_char :: int
  end_char :: int
  dom_selector :: "string option"

text \<open>
  The inner \<^verbatim>\<open>for i in range(end, max(start + chunk_size - 200, start), -1)\<close>: the first
  index, from the top, whose character is a sentence terminator sets \<open>end = i + 1\<close>;
  without one, \<open>end\<close> stays.
\<close>

fun sentence_break :: "string \<Rightarrow> int \<Rightarrow> int list \<Rightarrow> py_error + int" where
  "sentence_break text end [] = Inr end"
| "sentence_break text end (i # is) =
     (case py_getitem text i of
        Inl e \<Rightarrow> Inl e
      | Inr c \<Rightarrow> if c \<in> set ''.!?'' then Inr (i + 1) else sentence_break text end is)"

text \<open>The end of the window that starts at \<open>start\<close>, after the boundary refinement.\<close>

definition window_end :: "string \<Rightarrow> int \<Rightarrow> int \<Rightarrow> py_error + int" where
  "window_end text chunk_size start =
     (let text_length = int (length text);
          end = min (start + chunk_size) text_length
      in if end < text_length
         then sentence_break text end (range_down end (max (start + chunk_size - 200) start))
         else Inr end)"

text \<open>
  The \<^verbatim>\<open>while start < text_length\<close> loop of \<^verbatim>\<open>_create_chunks\<close>, on the loop state
  \<open>(start, chunk_index, chunks)\<close>. The loop need not terminate: the result is \<open>None\<close>
  when it does not, \<open>Some (Inl e)\<close> when it raises, \<open>Some (Inr chunks)\<close> when it returns.
\<close>

partial_function (option) chunk_loop ::
  "string \<Rightarrow> string \<Rightarrow> int \<Rightarrow> int \<Rightarrow> int \<Rightarrow> nat \<Rightarrow> TextChunk list
     \<Rightarrow> (py_error + TextChunk list) option" where
  "chunk_loop text url chunk_size overlap start chunk_index chunks =
     (if start < int (length text) then
        (case window_end text chunk_size start of
           Inl e \<Rightarrow> Some (Inl e)
         | Inr end \<Rightarrow>
             chunk_loop text url chunk_size overlap
               (if end < int (length text) then end - overlap else end)
               (if strip (py_slice text start end) \<noteq> [] then chunk_index + 1 else chunk_index)
               (if strip (py_slice text start end) \<noteq> []
                then chunks @ [\<lparr>chunk_id = make_chunk_id url chunk_index,
                                chunk_text = strip (py_slice text start end),
                                start_char = start, end_char = end, dom_selector = None\<rparr>]
                else chunks))
      else Some (Inr chunks))"

declare chunk_loop.simps [code]

definition create_chunks ::
  "string \<Rightarrow> string \<Rightarrow> int \<Rightarrow> int \<Rightarrow> (py_error + TextChunk list) option" where
  "create_chunks text url chunk_size overlap = chunk_loop text url chunk_size overlap 0 0 []"

text \<open>\<^verbatim>\<open>_create_chunks(text, url)\<close> with the default \<open>chunk_size = 1000\<close>, \<open>overlap = 200\<close>,
  the only way the repository calls it.\<close>

definition create_chunks_default :: "string \<Rightarrow> string \<Rightarrow> (py_error + TextChunk list) option" where
  "create_chunks_default text url = create_chunks text url 1000 200"

section \<open>The context assembler\<close>

text \<open>The \<^verbatim>\<open>for chunk in chunks\<close> loop of \<^verbatim>\<open>_prepare_context\<close>, on the state
  \<open>(context_parts, total_chars)\<close>; \<^verbatim>\<open>break\<close> returns the parts collected so far.\<close>

fun context_loop :: "TextChunk list \<Rightarrow> int \<Rightarrow> string list \<Rightarrow> int \<Rightarrow> string list" where
  "context_loop [] max_chars context_parts total_chars = context_parts"
| "context_loop (chunk # chunks) max_chars context_parts total_chars =
     (if total_chars + int (length (chunk_text chunk)) > max_chars then context_parts
      else context_loop chunks max_chars (context_parts @ [chunk_text chunk])
             (total_chars + int (length (chunk_text chunk))))"

definition prepare_context :: "TextChunk list \<Rightarrow> int \<Rightarrow> string" where
  "prepare_context chunks max_chars = join ''\<newline>\<newline>'' (context_loop chunks max_chars [] 0)"

text \<open>
  The context of \<^verbatim>\<open>compare_pages\<close>: the loop over \<^verbatim>\<open>enumerate(page_chunks_list)\<close> on
  the state \<open>contexts\<close>, with \<open>i\<close> the position; \<^verbatim>\<open>page_urls[i]\<close> raises when there
  are fewer URLs than pages. \<^verbatim>\<open>_prepare_context\<close> is called with its default budget 8000.
\<close>

definition py_getitem_list :: "'a list \<Rightarrow> nat \<Rightarrow> py_error + 'a" where
  "py_getitem_list xs i = (if i < length xs then Inr (xs ! i) else Inl IndexError)"

text \<open>\<^verbatim>\<open>f"Page {i+1} ({page_urls[i]}):\n{page_text[:2000]}"\<close> with
  \<^verbatim>\<open>page_text = self._prepare_context(chunks)\<close>.\<close>

definition page_context :: "nat \<Rightarrow> string \<Rightarrow> TextChunk list \<Rightarrow> string" where
  "page_context i url chunks =
     ''Page '' @ str_nat (i + 1) @ '' ('' @ url @ ''):\<newline>'' @ take 2000 (prepare_context chunks 8000)"

fun contexts_loop :: "TextChunk list list \<Rightarrow> string list \<Rightarrow> nat \<Rightarrow> string list \<Rightarrow> py_error + string list" where
  "contexts_loop [] page_urls i contexts = Inr contexts"
| "contexts_loop (chunks # rest) page_urls i contexts =
     (case py_getitem_list page_urls i of
        Inl e \<Rightarrow> Inl e
      | Inr url \<Rightarrow> contexts_loop rest page_urls (i + 1) (contexts @ [page_context i url chunks]))"

definition combined_context :: "TextChunk list list \<Rightarrow> string list \<Rightarrow> py_error + string" where
  "combined_context page_chunks_list page_urls =
     (case contexts_loop page_chunks_list page_urls 0 [] of
        Inl e \<Rightarrow> Inl e
      | Inr contexts \<Rightarrow> Inr (join ''\<newline>\<newline>---\<newline>\<newline>'' contexts))"

section \<open>The windows of a run\<close>

text \<open>
  The loop of \<^verbatim>\<open>_create_chunks\<close> once more, keeping of each iteration only its window
  \<open>(start, end)\<close>, whether a chunk was emitted for it or it was skipped as blank. It is
  the trace against which coverage and progress are stated; \<open>loops_agree\<close> below shows
  that the chunks of \<open>chunk_loop\<close> are the chunks emitted for the non-blank windows of
  this trace.
\<close>

partial_function (option) window_loop ::
  "string \<Rightarrow> int \<Rightarrow> int \<Rightarrow> int \<Rightarrow> (int \<times> int) list \<Rightarrow> (py_error + (int \<times> int) list) option" where
  "window_loop text chunk_size overlap start ws =
     (if start < int (length text) then
        (case window_end text chunk_size start of
           Inl e \<Rightarrow> Some (Inl e)
         | Inr end \<Rightarrow>
             window_loop text chunk_size overlap
               (if end < int (length text) then end - overlap else end)
               (ws @ [(start, end)]))
      else Some (Inr ws))"

declare window_loop.simps [code]

definition windows :: "string \<Rightarrow> int \<Rightarrow> int \<Rightarrow> (py_error + (int \<times> int) list) option" where
  "windows text chunk_size overlap = window_loop text chunk_size overlap 0 []"

text \<open>The chunks appended for a list of windows: the body of the loop after the window
  is known (\<^verbatim>\<open>chunk_text = text[start:end].strip()\<close>, \<^verbatim>\<open>if chunk_text:\<close>).\<close>

fun emit_chunks :: "string \<Rightarrow> string \<Rightarrow> nat \<Rightarrow> (int \<times> int) list \<Rightarrow> TextChunk list" where
  "emit_chunks text url chunk_index [] = []"
| "emit_chunks text url chunk_index ((start, end) # ws) =
     (if strip (py_slice text start end) \<noteq> []
      then \<lparr>chunk_id = make_chunk_id url chunk_index,
            chunk_text = strip (py_slice text start end),
            start_char = start, end_char = end, dom_selector = None\<rparr>
           # emit_chunks text url (chunk_index + 1) ws
      else emit_chunks text url chunk_index ws)"

text \<open>
  The configurations on which every window moves the start to the right: the refined end
  is at least \<open>max (start + chunk_size - 200) start + 2\<close>, the unrefined one is
  \<open>start + chunk_size\<close>, and the next start is the end minus \<open>overlap\<close>. The defaults
  \<open>chunk_size = 1000\<close>, \<open>overlap = 200\<close> are among them.
\<close>

definition progress_config :: "int \<Rightarrow> int \<Rightarrow> bool" where
  "progress_config chunk_size overlap \<longleftrightarrow>
     overlap < chunk_size \<and> overlap \<le> max (chunk_size - 200) 0 + 1"

text \<open>\<open>ws\<close> is the sequence of windows the loop visits from the start \<open>s\<close>.\<close>

fun window_chain :: "string \<Rightarrow> int \<Rightarrow> int \<Rightarrow> int \<Rightarrow> (int \<times> int) list \<Rightarrow> bool" where
  "window_chain text chunk_size overlap s [] \<longleftrightarrow> int (length text) \<le> s"
| "window_chain text chunk_size overlap s ((a, b) # ws) \<longleftrightarrow>
     a = s \<and> 0 \<le> s \<and> s < int (length text) \<and> window_end text chunk_size s = Inr b
     \<and> window_chain text chunk_size overlap (if b < int (length text) then b - overlap else b) ws"

text \<open>A window that is not skipped: \<^verbatim>\<open>text[start:end].strip()\<close> is not empty.\<close>

definition nonblank :: "string \<Rightarrow> int \<times> int \<Rightarrow> bool" where
  "nonblank text w = (strip (py_slice text (fst w) (snd w)) \<noteq> [])"

section \<open>Configurations that cannot make progress\<close>

text \<open>
  A configuration and a text on which the first window ends before the text does, has no
  sentence terminator to move its end, and is followed by a window that starts no further
  to the right: \<open>0 < chunk_size \<le> overlap\<close>, the text longer than \<open>chunk_size\<close>.
\<close>

definition no_progress :: "string \<Rightarrow> int \<Rightarrow> int \<Rightarrow> bool" where
  "no_progress text chunk_size overlap \<longleftrightarrow>
     0 < chunk_size \<and> chunk_size \<le> overlap \<and> chunk_size < int (length text)
       \<and> (\<forall>c \<in> set text. c \<notin> set ''.!?'')"

section \<open>The sensitive-input detector\<close>

text \<open>
  \<^verbatim>\<open>BeautifulSoup(html, 'lxml')\<close> is outside the repository: the detector is modelled from
  the parsed document on, given as the list of its tags in document order. A tag has a
  name and a dictionary of attributes; \<open>type\<close>, \<open>name\<close> and \<open>id\<close> are single-valued, so
  their values are strings.
\<close>

record Tag =
  tag_name :: string
  attrs :: "string \<rightharpoonup> string"

text \<open>\<^verbatim>\<open>soup.find_all(name, **attrs)\<close>: the tags of that name whose listed attributes
  have exactly the listed values, in document order.\<close>

definition find_all :: "Tag list \<Rightarrow> string \<Rightarrow> (string \<times> string) list \<Rightarrow> Tag list" where
  "find_all soup nm kwargs =
     filter (\<lambda>t. tag_name t = nm \<and> list_all (\<lambda>(k, v). attrs t k = Some v) kwargs) soup"

text \<open>\<^verbatim>\<open>tag.get(key, default)\<close>\<close>

definition tag_get :: "Tag \<Rightarrow> string \<Rightarrow> string \<Rightarrow> string" where
  "tag_get t key dflt = (case attrs t key of None \<Rightarrow> dflt | Some v \<Rightarrow> v)"

text \<open>\<^verbatim>\<open>str.lower()\<close> for the code points below 256: the letters A-Z, and the letters
  192-222 but the multiplication sign 215, move up by 32.\<close>

definition lower_char :: "char \<Rightarrow> char" where
  "lower_char c =
     (case map_of (zip ''ABCDEFGHIJKLMNOPQRSTUVWXYZ'' ''abcdefghijklmnopqrstuvwxyz'') c of
        Some l \<Rightarrow> l
      | None \<Rightarrow> (let n = (of_char c :: nat)
                 in if 192 \<le> n \<and> n \<le> 222 \<and> n \<noteq> 215 then char_of (n + 32) else c))"

definition py_lower :: "string \<Rightarrow> string" where
  "py_lower s = map lower_char s"

text \<open>\<^verbatim>\<open>sub in s\<close> for strings: \<open>sub\<close> occurs in \<open>s\<close> as a contiguous part.\<close>

fun py_in :: "string \<Rightarrow> string \<Rightarrow> bool" where
  "py_in sub [] = (sub = [])"
| "py_in sub (c # cs) = (prefix sub (c # cs) \<or> py_in sub cs)"

text \<open>The first loop of \<^verbatim>\<open>detect_sensitive_inputs\<close>, over the password inputs found.\<close>

fun password_loop :: "Tag list \<Rightarrow> string list \<Rightarrow> string list" where
  "password_loop [] sensitive_fields = sensitive_fields"
| "password_loop (input_tag # rest) sensitive_fields =
     password_loop rest (sensitive_fields @ [''password''])"

text \<open>\<^verbatim>\<open>any(keyword in name for keyword in ['card', 'cvv', 'ccv', 'credit'])\<close>\<close>

definition card_keyword :: "string \<Rightarrow> bool" where
  "card_keyword name = list_ex (\<lambda>keyword. py_in keyword name) [''card'', ''cvv'', ''ccv'', ''credit'']"

text \<open>\<^verbatim>\<open>(input_tag.get('name', '') + ' ' + input_tag.get('id', '')).lower()\<close>\<close>

definition field_name :: "Tag \<Rightarrow> string" where
  "field_name input_tag = py_lower (tag_get input_tag ''name'' '''' @ '' '' @ tag_get input_tag ''id'' '''')"

text \<open>The second loop, over all inputs.\<close>

fun card_loop :: "Tag list \<Rightarrow> string list \<Rightarrow> string list" where
  "card_loop [] sensitive_fields = sensitive_fields"
| "card_loop (input_tag # rest) sensitive_fields =
     card_loop rest (if card_keyword (field_name input_tag)
                     then sensitive_fields @ [''credit_card''] else sensitive_fields)"

text \<open>\<^verbatim>\<open>list(set(sensitive_fields))\<close> has no fixed order: the result is the set.\<close>

definition detect_sensitive_inputs :: "Tag list \<Rightarrow> string set" where
  "detect_sensitive_inputs soup =
     set (card_loop (find_all soup ''input'' [])
            (password_loop (find_all soup ''input'' [(''type'', ''password'')]) []))"

section \<open>Regular expressions of the extractor\<close>

text \<open>
  The patterns of \<^verbatim>\<open>content_extractor.py\<close> are sequences of two kinds of items: the
  word boundary \<^verbatim>\<open>\b\<close>, and a class of characters with a greedy repetition
  \<^verbatim>\<open>{lo,hi}\<close> (\<^verbatim>\<open>?\<close> is \<open>{0,1}\<close>, \<^verbatim>\<open>*\<close> is \<open>{0,}\<close>, \<^verbatim>\<open>+\<close> is \<open>{1,}\<close>, a single
  character or class is \<open>{1,1}\<close>).
\<close>

datatype re_item = Boundary | Rep "char \<Rightarrow> bool" nat "nat option"

text \<open>\<^verbatim>\<open>\d\<close> and \<^verbatim>\<open>\w\<close> on the code points below 256: the decimal digits; the
  alphanumeric characters and the underscore. \<^verbatim>\<open>\s\<close> is \<open>isspace\<close>.\<close>

definition is_digit :: "char \<Rightarrow> bool" where
  "is_digit c = (let n = (of_char c :: nat) in 48 \<le> n \<and> n \<le> 57)"

definition is_upper :: "char \<Rightarrow> bool" where
  "is_upper c = (let n = (of_char c :: nat) in 65 \<le> n \<and> n \<le> 90)"

definition is_lower :: "char \<Rightarrow> bool" where
  "is_lower c = (let n = (of_char c :: nat) in 97 \<le> n \<and> n \<le> 122)"

definition is_word :: "char \<Rightarrow> bool" where
  "is_word c = (let n = (of_char c :: nat)
                in (48 \<le> n \<and> n \<le> 57) \<or> (65 \<le> n \<and> n \<le> 90) \<or> n = 95 \<or> (97 \<le> n \<and> n \<le> 122)
                   \<or> n = 170 \<or> n = 178 \<or> n = 179 \<or> n = 181 \<or> n = 185 \<or> n = 186
                   \<or> (188 \<le> n \<and> n \<le> 190) \<or> (192 \<le> n \<and> n \<le> 214) \<or> (216 \<le> n \<and> n \<le> 246)
                   \<or> 248 \<le> n)"

text \<open>\<^verbatim>\<open>\b\<close> between the character before the position (none at the start of the
  string) and the rest of the string: exactly one side is a word character.\<close>

definition at_boundary :: "char option \<Rightarrow> string \<Rightarrow> bool" where
  "at_boundary prev s \<longleftrightarrow>
     (case prev of None \<Rightarrow> False | Some c \<Rightarrow> is_word c) \<noteq> (case s of [] \<Rightarrow> False | c # cs \<Rightarrow> is_word c)"

text \<open>A greedy repetition takes as many characters as it can, and gives them back one
  at a time while the rest of the pattern fails: \<open>try_down f lo k\<close> tries the counts
  \<open>k, k - 1, \<dots>, lo\<close>, with \<open>f j\<close> the match of the rest after \<open>j\<close> characters.\<close>

primrec try_down :: "(nat \<Rightarrow> nat option) \<Rightarrow> nat \<Rightarrow> nat \<Rightarrow> nat option" where
  "try_down f lo 0 = (if lo = 0 then f 0 else None)"
| "try_down f lo (Suc k) =
     (if Suc k < lo then None
      else case f (Suc k) of Some n \<Rightarrow> Some (Suc k + n) | None \<Rightarrow> try_down f lo k)"

definition greedy_count :: "(char \<Rightarrow> bool) \<Rightarrow> nat option \<Rightarrow> string \<Rightarrow> nat" where
  "greedy_count p hi s =
     (let n = length (takeWhile p s) in case hi of None \<Rightarrow> n | Some h \<Rightarrow> min h n)"

text \<open>The match of a pattern at a position: \<open>prev\<close> is the character before the position,
  \<open>s\<close> the string from the position on; the result is the length of the match the
  backtracking search finds first.\<close>

primrec re_match :: "re_item list \<Rightarrow> char option \<Rightarrow> string \<Rightarrow> nat option" where
  "re_match [] prev s = Some 0"
| "re_match (it # its) prev s =
     (case it of
        Boundary \<Rightarrow> if at_boundary prev s then re_match its prev s else None
      | Rep p lo hi \<Rightarrow>
          try_down (\<lambda>k. re_match its (if k = 0 then prev else Some (s ! (k - 1))) (drop k s))
            lo (greedy_count p hi s))"

text \<open>
  \<^verbatim>\<open>pattern.sub(repl, text)\<close> for a replacement without backslashes: the matches are
  looked for from left to right and do not overlap; each is replaced by \<open>repl\<close>. No
  pattern of the module matches the empty string, so what \<^verbatim>\<open>re.sub\<close> does
  with empty matches is not modelled: a position with an empty match is passed over.
\<close>

fun re_sub :: "re_item list \<Rightarrow> string \<Rightarrow> char option \<Rightarrow> string \<Rightarrow> string" where
  "re_sub its repl prev [] = []"
| "re_sub its repl prev (c # cs) =
     (case re_match its prev (c # cs) of
        None \<Rightarrow> c # re_sub its repl (Some c) cs
      | Some m \<Rightarrow>
          (case m of
             0 \<Rightarrow> c # re_sub its repl (Some c) cs
           | Suc n \<Rightarrow> repl @ re_sub its repl (Some ((c # cs) ! n)) (drop n cs)))"


section \<open>Whitespace cleanup and redaction\<close>

text \<open>\<^verbatim>\<open>\n\s*\n\<close> and \<^verbatim>\<open> +\<close> of \<^verbatim>\<open>_clean_text\<close>.\<close>

definition blank_lines_pattern :: "re_item list" where
  "blank_lines_pattern =
     [Rep (\<lambda>c. c = CHR ''\<newline>'') 1 (Some 1), Rep isspace 0 None, Rep (\<lambda>c. c = CHR ''\<newline>'') 1 (Some 1)]"

definition spaces_pattern :: "re_item list" where
  "spaces_pattern = [Rep (\<lambda>c. c = CHR '' '') 1 None]"

definition clean_text :: "string \<Rightarrow> string" where
  "clean_text text =
     strip (re_sub spaces_pattern '' '' None (re_sub blank_lines_pattern ''\<newline>\<newline>'' None text))"

text \<open>The three compiled patterns of \<^verbatim>\<open>sensitive_patterns\<close>:
  \<^verbatim>\<open>\b\d{4}[-\s]?\d{4}[-\s]?\d{4}[-\s]?\d{4}\b\<close>,
  \<^verbatim>\<open>\b\d{3}-\d{2}-\d{4}\b\<close> and
  \<^verbatim>\<open>\b[A-Za-z0-9._%+-]+@[A-Za-z0-9.-]+\.[A-Z|a-z]{2,}\b\<close>.\<close>

definition card_separator :: "char \<Rightarrow> bool" where
  "card_separator c \<longleftrightarrow> c = CHR ''-'' \<or> isspace c"

definition credit_card_pattern :: "re_item list" where
  "credit_card_pattern =
     [Boundary, Rep is_digit 4 (Some 4), Rep card_separator 0 (Some 1),
      Rep is_digit 4 (Some 4), Rep card_separator 0 (Some 1),
      Rep is_digit 4 (Some 4), Rep card_separator 0 (Some 1),
      Rep is_digit 4 (Some 4), Boundary]"

definition ssn_pattern :: "re_item list" where
  "ssn_pattern =
     [Boundary, Rep is_digit 3 (Some 3), Rep (\<lambda>c. c = CHR ''-'') 1 (Some 1),
      Rep is_digit 2 (Some 2), Rep (\<lambda>c. c = CHR ''-'') 1 (Some 1),
      Rep is_digit 4 (Some 4), Boundary]"

definition email_local :: "char \<Rightarrow> bool" where
  "email_local c \<longleftrightarrow> is_upper c \<or> is_lower c \<or> is_digit c \<or> c \<in> set ''._%+-''"

definition email_domain :: "char \<Rightarrow> bool" where
  "email_domain c \<longleftrightarrow> is_upper c \<or> is_lower c \<or> is_digit c \<or> c \<in> set ''.-''"

definition email_tld :: "char \<Rightarrow> bool" where
  "email_tld c \<longleftrightarrow> is_upper c \<or> c = CHR ''|'' \<or> is_lower c"

definition email_pattern :: "re_item list" where
  "email_pattern =
     [Boundary, Rep email_local 1 None, Rep (\<lambda>c. c = CHR ''@'') 1 (Some 1),
      Rep email_domain 1 None, Rep (\<lambda>c. c = CHR ''.'') 1 (Some 1),
      Rep email_tld 2 None, Boundary]"

text \<open>The dictionary \<^verbatim>\<open>sensitive_patterns\<close>, in the order of its items.\<close>

definition sensitive_patterns :: "(string \<times> re_item list) list" where
  "sensitive_patterns =
     [(''credit_card'', credit_card_pattern), (''ssn'', ssn_pattern), (''email'', email_pattern)]"

text \<open>\<^verbatim>\<open>str.upper()\<close> on the names of the patterns, which are lower-case ASCII letters
  and underscores: the letters a-z become A-Z.\<close>

definition upper_char :: "char \<Rightarrow> char" where
  "upper_char c =
     (case map_of (zip ''abcdefghijklmnopqrstuvwxyz'' ''ABCDEFGHIJKLMNOPQRSTUVWXYZ'') c of
        Some u \<Rightarrow> u | None \<Rightarrow> c)"

definition py_upper :: "string \<Rightarrow> string" where
  "py_upper s = map upper_char s"

text \<open>\<^verbatim>\<open>_redact_sensitive\<close>: the loop over the items of the dictionary.\<close>

fun redact_loop :: "(string \<times> re_item list) list \<Rightarrow> string \<Rightarrow> string" where
  "redact_loop [] text = text"
| "redact_loop ((pattern_name, pattern) # rest) text =
     redact_loop rest (re_sub pattern (''[REDACTED_'' @ py_upper pattern_name @ '']'') None text)"

definition redact_sensitive :: "string \<Rightarrow> string" where
  "redact_sensitive text = redact_loop sensitive_patterns text"

text \<open>The text of \<^verbatim>\<open>extract_from_html\<close> between the conversion of the markup to text
  (\<^verbatim>\<open>html2text\<close>, a library) and the chunker: cleaned, then redacted.\<close>

definition clean_and_redact :: "string \<Rightarrow> string" where
  "clean_and_redact text = redact_sensitive (clean_text text)"







section \<open>Basic facts\<close>

lemma strip_Nil [simp]: "strip [] = []"
  by (simp add: strip_def)

lemma py_slice_whole: "py_slice s 0 (int (length s)) = s"
  by (simp add: py_slice_def slice_bound_def)

lemma chunk_loop_done:
  "\<not> start < int (length text) \<Longrightarrow>
     chunk_loop text url chunk_size overlap start chunk_index chunks = Some (Inr chunks)"
  by (subst chunk_loop.simps) simp

lemma window_end_fits:
  "int (length text) \<le> start + chunk_size \<Longrightarrow>
     window_end text chunk_size start = Inr (int (length text))"
  by (simp add: window_end_def Let_def)

lemma sentence_break_no_terminator:
  "\<forall>c \<in> set text. c \<notin> set ''.!?'' \<Longrightarrow>
     sentence_break text e is = Inl IndexError \<or> sentence_break text e is = Inr e"
proof (induction "is")
  case Nil
  then show ?case by simp
next
  case (Cons i "is")
  show ?case
  proof (cases "py_getitem text i")
    case (Inl err)
    then show ?thesis by (cases err) simp
  next
    case (Inr c)
    then have "c \<in> set text"
      by (auto simp: py_getitem_def Let_def split: if_splits)
    with Cons.prems have "c \<notin> set ''.!?''" by blast
    with Inr Cons show ?thesis by simp
  qed
qed

section \<open>The chunker does not check its configuration\<close>

text \<open>A text that fits in the first window is returned as one chunk (none when it is
  blank), whatever the overlap.\<close>

lemma create_chunks_fits:
  assumes "int (length text) \<le> chunk_size"
  shows "create_chunks text url chunk_size overlap =
     Some (Inr (if strip text = [] then []
                else [\<lparr>chunk_id = make_chunk_id url 0, chunk_text = strip text,
                        start_char = 0, end_char = int (length text), dom_selector = None\<rparr>]))"
proof (cases "text = []")
  case True
  then show ?thesis by (simp add: create_chunks_def chunk_loop_done)
next
  case False
  then have lt: "0 < int (length text)" by simp
  from assms have w: "window_end text chunk_size 0 = Inr (int (length text))"
    by (simp add: window_end_fits)
  show ?thesis
    unfolding create_chunks_def
    by (subst chunk_loop.simps) (simp add: lt w py_slice_whole chunk_loop_done)
qed

text \<open>From a start at or left of 0, a configuration without progress never returns a
  chunk list: every window starts at or left of 0 again, or the boundary search raises.\<close>

lemma chunk_loop_no_progress:
  assumes "chunk_loop text url chunk_size overlap start chunk_index chunks = Some y"
  shows "no_progress text chunk_size overlap \<and> start \<le> 0 \<longrightarrow> (\<forall>cs. y \<noteq> Inr cs)"
proof (rule chunk_loop.raw_induct[where P = "\<lambda>text url chunk_size overlap start chunk_index chunks y.
         no_progress text chunk_size overlap \<and> start \<le> 0 \<longrightarrow> (\<forall>cs. y \<noteq> Inr cs)", OF _ assms], goal_cases)
  case (1 loop t url chunk_size overlap start chunk_index chunks y)
  note IH = 1(1) and body = 1(2)
  show ?case
  proof (intro impI, elim conjE)
    assume S: "no_progress t chunk_size overlap" and neg: "start \<le> 0"
    from S neg have lt: "start < int (length t)" unfolding no_progress_def by linarith
    from S neg have lt2: "start + chunk_size < int (length t)" unfolding no_progress_def by linarith
    then have e: "min (start + chunk_size) (int (length t)) = start + chunk_size" by linarith
    have "window_end t chunk_size start = sentence_break t (start + chunk_size)
             (range_down (start + chunk_size) (max (start + chunk_size - 200) start))"
      unfolding window_end_def Let_def e using lt2 by simp
    with S have we: "window_end t chunk_size start = Inl IndexError
                   \<or> window_end t chunk_size start = Inr (start + chunk_size)"
      using sentence_break_no_terminator[of t "start + chunk_size"] unfolding no_progress_def by simp
    note step = body[unfolded if_P[OF lt]]
    from we show "\<forall>cs. y \<noteq> Inr cs"
    proof
      assume "window_end t chunk_size start = Inl IndexError"
      with step show ?thesis by auto
    next
      assume w: "window_end t chunk_size start = Inr (start + chunk_size)"
      note step2 = step[unfolded w sum.case if_P[OF lt2]]
      from S neg have "start + chunk_size - overlap \<le> 0" unfolding no_progress_def by linarith
      with IH[OF step2] S show ?thesis by simp
    qed
  qed
qed

text \<open>
  Claim C4, as the code has it. \<^verbatim>\<open>_create_chunks\<close> has no check of \<open>chunk_size\<close> against
  \<open>overlap\<close>: the loop is entered with whatever it is given. With \<open>chunk_size \<le> overlap\<close>
  it still returns the chunks, and no error, when the text fits in the first window;
  and on a longer text without sentence terminators (\<open>0 < chunk_size \<le> overlap\<close>) it
  never returns a chunk list: it runs forever or raises \<open>IndexError\<close>.
\<close>

theorem create_chunks_unchecked_config:
  "(int (length text) \<le> chunk_size \<longrightarrow>
      create_chunks text url chunk_size overlap =
        Some (Inr (if strip text = [] then []
                else [\<lparr>chunk_id = make_chunk_id url 0, chunk_text = strip text,
                        start_char = 0, end_char = int (length text), dom_selector = None\<rparr>])))
   \<and> (no_progress text chunk_size overlap \<longrightarrow>
        (\<forall>cs. create_chunks text url chunk_size overlap \<noteq> Some (Inr cs)))"
proof (intro conjI impI allI)
  assume "int (length text) \<le> chunk_size"
  then show "create_chunks text url chunk_size overlap =
        Some (Inr (if strip text = [] then []
                else [\<lparr>chunk_id = make_chunk_id url 0, chunk_text = strip text,
                        start_char = 0, end_char = int (length text), dom_selector = None\<rparr>]))"
    by (rule create_chunks_fits)
next
  fix cs
  assume S: "no_progress text chunk_size overlap"
  show "create_chunks text url chunk_size overlap \<noteq> Some (Inr cs)"
  proof
    assume "create_chunks text url chunk_size overlap = Some (Inr cs)"
    then have "chunk_loop text url chunk_size overlap 0 0 [] = Some (Inr cs)"
      by (simp add: create_chunks_def)
    from chunk_loop_no_progress[OF this] S show False by simp
  qed
qed

text \<open>The theorem at \<open>chunk_size = overlap = 3\<close>: the text \<open>abc\<close> fits and comes back
  as one chunk, the text \<open>abcdefg\<close> never comes back.\<close>

theorem create_chunks_unchecked_config_witness:
  "int (length ''abc'') \<le> 3
   \<and> create_chunks ''abc'' ''u'' 3 3 =
        Some (Inr [\<lparr>chunk_id = make_chunk_id ''u'' 0, chunk_text = ''abc'',
                     start_char = 0, end_char = 3, dom_selector = None\<rparr>])
   \<and> (\<forall>cs. create_chunks ''abcdefg'' ''u'' 3 3 \<noteq> Some (Inr cs))"
proof -
  have a: "int (length ''abc'') \<le> 3" by simp
  have s: "strip ''abc'' = ''abc''" by (simp add: strip_def isspace_def)
  have n: "no_progress ''abcdefg'' 3 3" by (simp add: no_progress_def)
  from create_chunks_unchecked_config[of "''abc''" 3 "''u''" 3] a s
  have "create_chunks ''abc'' ''u'' 3 3 =
        Some (Inr [\<lparr>chunk_id = make_chunk_id ''u'' 0, chunk_text = ''abc'',
                     start_char = 0, end_char = 3, dom_selector = None\<rparr>])"
    by simp
  moreover from create_chunks_unchecked_config[of "''abcdefg''" 3 "''u''" 3] n
  have "\<forall>cs. create_chunks ''abcdefg'' ''u'' 3 3 \<noteq> Some (Inr cs)" by blast
  ultimately show ?thesis using a by blast
qed

text \<open>Claim C4 as stated fails: with \<open>chunk_size = overlap = 5\<close> the text \<open>ab\<close> is
  chunked, and no error is returned.\<close>

theorem create_chunks_size_le_overlap_runs:
  "(5::int) \<le> 5 \<and> create_chunks ''ab'' ''u'' 5 5 =
     Some (Inr [\<lparr>chunk_id = make_chunk_id ''u'' 0, chunk_text = ''ab'',
                  start_char = 0, end_char = 2, dom_selector = None\<rparr>])"
  by (simp add: create_chunks_def chunk_loop.simps window_end_def py_slice_def slice_bound_def
        strip_def isspace_def)

section \<open>The context assembler keeps the longest prefix of chunks within the budget\<close>

lemma context_loop_prefix:
  "\<exists>k\<le>length chunks.
      context_loop chunks N parts tot = parts @ map chunk_text (take k chunks)
    \<and> (0 < k \<longrightarrow> tot + (\<Sum>c\<leftarrow>take k chunks. int (length (chunk_text c))) \<le> N)
    \<and> (k < length chunks \<longrightarrow> N < tot + (\<Sum>c\<leftarrow>take (Suc k) chunks. int (length (chunk_text c))))"
proof (induction chunks arbitrary: parts tot)
  case Nil
  then show ?case by simp
next
  case (Cons c cs)
  show ?case
  proof (cases "tot + int (length (chunk_text c)) > N")
    case True
    then show ?thesis by (intro exI[of _ 0]) simp
  next
    case False
    from Cons.IH[of "parts @ [chunk_text c]" "tot + int (length (chunk_text c))"]
    obtain k where k: "k \<le> length cs"
      "context_loop cs N (parts @ [chunk_text c]) (tot + int (length (chunk_text c)))
         = (parts @ [chunk_text c]) @ map chunk_text (take k cs)"
      "0 < k \<longrightarrow> tot + int (length (chunk_text c)) + (\<Sum>c\<leftarrow>take k cs. int (length (chunk_text c))) \<le> N"
      "k < length cs \<longrightarrow> N < tot + int (length (chunk_text c)) + (\<Sum>c\<leftarrow>take (Suc k) cs. int (length (chunk_text c)))"
      by blast
    show ?thesis
    proof (intro exI[of _ "Suc k"] conjI impI)
      show "Suc k \<le> length (c # cs)" using k(1) by simp
      show "context_loop (c # cs) N parts tot = parts @ map chunk_text (take (Suc k) (c # cs))"
        using False k(2) by simp
      show "tot + (\<Sum>c\<leftarrow>take (Suc k) (c # cs). int (length (chunk_text c))) \<le> N"
      proof (cases "k = 0")
        case True then show ?thesis using False by simp
      next
        case False then show ?thesis using k(3) by simp
      qed
      assume "Suc k < length (c # cs)"
      then show "N < tot + (\<Sum>c\<leftarrow>take (Suc (Suc k)) (c # cs). int (length (chunk_text c)))"
        using k(4) by simp
    qed
  qed
qed

lemma join_eq_Nil: "join sep ps = [] \<longleftrightarrow> (\<forall>p\<in>set ps. p = []) \<and> (sep = [] \<or> length ps \<le> 1)"
  by (induction sep ps rule: join.induct) auto

text \<open>
  Claim C3, as the code has it. The assembled context is the chunk texts of a prefix of
  the list, in order, joined by a blank line; the prefix is cut before the first chunk
  that would bring the running total over \<open>N\<close>, so no chunk is split and none after the
  cut is taken. The first chunk is tested like every other: when it alone exceeds \<open>N\<close>
  the context is empty; when it is non-empty and within \<open>N\<close> the context is non-empty.
\<close>

theorem prepare_context_longest_prefix:
  "(\<exists>k\<le>length chunks.
      prepare_context chunks N = join ''\<newline>\<newline>'' (map chunk_text (take k chunks))
    \<and> (0 < k \<longrightarrow> (\<Sum>c\<leftarrow>take k chunks. int (length (chunk_text c))) \<le> N)
    \<and> (k < length chunks \<longrightarrow> N < (\<Sum>c\<leftarrow>take (Suc k) chunks. int (length (chunk_text c)))))
   \<and> (chunks \<noteq> [] \<and> N < int (length (chunk_text (hd chunks))) \<longrightarrow> prepare_context chunks N = [])
   \<and> (chunks \<noteq> [] \<and> chunk_text (hd chunks) \<noteq> [] \<and> int (length (chunk_text (hd chunks))) \<le> N
         \<longrightarrow> prepare_context chunks N \<noteq> [])"
proof (intro conjI impI)
  show "\<exists>k\<le>length chunks.
      prepare_context chunks N = join ''\<newline>\<newline>'' (map chunk_text (take k chunks))
    \<and> (0 < k \<longrightarrow> (\<Sum>c\<leftarrow>take k chunks. int (length (chunk_text c))) \<le> N)
    \<and> (k < length chunks \<longrightarrow> N < (\<Sum>c\<leftarrow>take (Suc k) chunks. int (length (chunk_text c))))"
  proof -
    from context_loop_prefix[of chunks N "[]" 0] obtain k where k: "k \<le> length chunks"
      "context_loop chunks N [] 0 = map chunk_text (take k chunks)"
      "0 < k \<longrightarrow> (\<Sum>c\<leftarrow>take k chunks. int (length (chunk_text c))) \<le> N"
      "k < length chunks \<longrightarrow> N < (\<Sum>c\<leftarrow>take (Suc k) chunks. int (length (chunk_text c)))"
      by auto
    then show ?thesis unfolding prepare_context_def by (intro exI[of _ k]) simp
  qed
next
  assume "chunks \<noteq> [] \<and> N < int (length (chunk_text (hd chunks)))"
  then show "prepare_context chunks N = []"
    by (cases chunks) (simp_all add: prepare_context_def)
next
  assume A: "chunks \<noteq> [] \<and> chunk_text (hd chunks) \<noteq> [] \<and> int (length (chunk_text (hd chunks))) \<le> N"
  then obtain c cs where cs: "chunks = c # cs" by (cases chunks) auto
  from context_loop_prefix[of cs N "[chunk_text c]" "int (length (chunk_text c))"]
  obtain k where "context_loop cs N [chunk_text c] (int (length (chunk_text c)))
                    = [chunk_text c] @ map chunk_text (take k cs)"
    by blast
  with A cs have "context_loop chunks N [] 0 = chunk_text c # map chunk_text (take k cs)" by simp
  with A cs show "prepare_context chunks N \<noteq> []"
    by (simp add: prepare_context_def join_eq_Nil)
qed

text \<open>The theorem on one chunk \<open>hello\<close>: within a budget of 8 the context is not empty,
  over a budget of 4 it is empty.\<close>

theorem prepare_context_longest_prefix_witness:
  "prepare_context [\<lparr>chunk_id = ''c0'', chunk_text = ''hello'', start_char = 0, end_char = 5,
                      dom_selector = None\<rparr>] 8 \<noteq> []
   \<and> prepare_context [\<lparr>chunk_id = ''c0'', chunk_text = ''hello'', start_char = 0, end_char = 5,
                        dom_selector = None\<rparr>] 4 = []"
  using prepare_context_longest_prefix[of "[\<lparr>chunk_id = ''c0'', chunk_text = ''hello'',
            start_char = 0, end_char = 5, dom_selector = None\<rparr>]" 8]
        prepare_context_longest_prefix[of "[\<lparr>chunk_id = ''c0'', chunk_text = ''hello'',
            start_char = 0, end_char = 5, dom_selector = None\<rparr>]" 4]
  by simp

text \<open>Claim C3 as stated fails: a non-empty chunk list whose first chunk has 3 characters
  gives the empty context under a budget of 2.\<close>

theorem prepare_context_first_chunk_dropped:
  "[\<lparr>chunk_id = ''id0'', chunk_text = ''abc'', start_char = 0, end_char = 3, dom_selector = None\<rparr>] \<noteq> []
   \<and> prepare_context [\<lparr>chunk_id = ''id0'', chunk_text = ''abc'', start_char = 0, end_char = 3,
                        dom_selector = None\<rparr>] 2 = []"
  by (simp add: prepare_context_def)

section \<open>The multi-page context\<close>

lemma contexts_loop_enumerate:
  "i + length pcl \<le> length urls \<Longrightarrow>
   contexts_loop pcl urls i acc =
     Inr (acc @ map (\<lambda>(j, chunks). page_context j (urls ! j) chunks) (enumerate i pcl))"
  by (induction pcl arbitrary: i acc) (simp_all add: py_getitem_list_def)

text \<open>
  Claim C9. With a URL for every page, the combined context is the sections of the pages
  in the order given, joined by the separator line; the section at position \<open>i\<close>
  (counted from 0) is headed \<open>Page i+1\<close> with the URL at that position, and carries the
  first 2000 characters of that page's own assembled context, so at most 2000 of them.
\<close>

theorem combined_context_sections:
  assumes "length page_chunks_list \<le> length page_urls"
  shows "combined_context page_chunks_list page_urls =
           Inr (join ''\<newline>\<newline>---\<newline>\<newline>''
                  (map (\<lambda>(i, chunks). ''Page '' @ str_nat (i + 1) @ '' ('' @ page_urls ! i @ ''):\<newline>''
                                        @ take 2000 (prepare_context chunks 8000))
                       (enumerate 0 page_chunks_list)))
         \<and> (\<forall>chunks \<in> set page_chunks_list. length (take 2000 (prepare_context chunks 8000)) \<le> 2000)"
  using assms contexts_loop_enumerate[of 0 page_chunks_list page_urls "[]"]
  by (simp add: combined_context_def page_context_def)

text \<open>The theorem on two pages of one chunk each.\<close>

theorem combined_context_sections_witness:
  "length [[\<lparr>chunk_id = ''c0'', chunk_text = ''one'', start_char = 0, end_char = 3, dom_selector = None\<rparr>],
           [\<lparr>chunk_id = ''c1'', chunk_text = ''two'', start_char = 0, end_char = 3, dom_selector = None\<rparr>]]
     \<le> length [''http://a'', ''http://b'']
   \<and> combined_context
       [[\<lparr>chunk_id = ''c0'', chunk_text = ''one'', start_char = 0, end_char = 3, dom_selector = None\<rparr>],
        [\<lparr>chunk_id = ''c1'', chunk_text = ''two'', start_char = 0, end_char = 3, dom_selector = None\<rparr>]]
       [''http://a'', ''http://b'']
     = Inr ''Page 1 (http://a):\<newline>one\<newline>\<newline>---\<newline>\<newline>Page 2 (http://b):\<newline>two''"
  using combined_context_sections[of
       "[[\<lparr>chunk_id = ''c0'', chunk_text = ''one'', start_char = 0, end_char = 3, dom_selector = None\<rparr>],
        [\<lparr>chunk_id = ''c1'', chunk_text = ''two'', start_char = 0, end_char = 3, dom_selector = None\<rparr>]]"
       "[''http://a'', ''http://b'']"]
  by (simp add: enumerate_eq_zip str_nat_def prepare_context_def)

section \<open>The loop and its windows\<close>

lemma sentence_break_range:
  "(\<forall>i\<in>set is. 0 \<le> i \<and> i < int (length text)) \<Longrightarrow>
     \<exists>e'. sentence_break text e is = Inr e' \<and> (e' = e \<or> (\<exists>i\<in>set is. e' = i + 1))"
proof (induction "is")
  case Nil
  then show ?case by simp
next
  case (Cons i "is")
  then have "0 \<le> i" "i < int (length text)" by simp_all
  then have g: "py_getitem text i = Inr (text ! nat i)"
    by (simp add: py_getitem_def)
  from Cons obtain e' where "sentence_break text e is = Inr e'" "e' = e \<or> (\<exists>i\<in>set is. e' = i + 1)"
    by auto
  with g show ?case by auto
qed

lemma window_end_facts:
  assumes "0 \<le> start" "start < int (length text)"
  shows "\<exists>e. window_end text chunk_size start = Inr e \<and>
           (e = min (start + chunk_size) (int (length text))
            \<or> (start + chunk_size < int (length text)
                \<and> max (start + chunk_size - 200) start + 2 \<le> e \<and> e \<le> start + chunk_size + 1))"
proof (cases "min (start + chunk_size) (int (length text)) < int (length text)")
  case False
  then show ?thesis by (simp add: window_end_def Let_def)
next
  case True
  then have m: "min (start + chunk_size) (int (length text)) = start + chunk_size"
    and lt: "start + chunk_size < int (length text)" by linarith+
  let ?is = "range_down (start + chunk_size) (max (start + chunk_size - 200) start)"
  have r: "\<forall>i\<in>set ?is. 0 \<le> i \<and> i < int (length text)"
    using assms lt by (auto simp: range_down_def)
  from sentence_break_range[OF r, of "start + chunk_size"]
  obtain e' where e': "sentence_break text (start + chunk_size) ?is = Inr e'"
     "e' = start + chunk_size \<or> (\<exists>i\<in>set ?is. e' = i + 1)" by blast
  have w: "window_end text chunk_size start = Inr e'"
    using e'(1) lt by (simp add: window_end_def Let_def m)
  from e'(2) show ?thesis
  proof
    assume "e' = start + chunk_size"
    with w m show ?thesis by simp
  next
    assume "\<exists>i\<in>set ?is. e' = i + 1"
    then obtain i where "i \<in> set ?is" "e' = i + 1" by blast
    then have "max (start + chunk_size - 200) start + 2 \<le> e'" "e' \<le> start + chunk_size + 1"
      by (auto simp: range_down_def)
    with w lt show ?thesis by blast
  qed
qed

lemma window_end_progress:
  assumes "progress_config chunk_size overlap" "0 \<le> start" "start < int (length text)"
  shows "\<exists>e. window_end text chunk_size start = Inr e \<and> e \<le> int (length text)
            \<and> (e < int (length text) \<longrightarrow> start < e - overlap)"
proof -
  from window_end_facts[OF assms(2,3), of chunk_size] obtain e where
    e: "window_end text chunk_size start = Inr e"
       "e = min (start + chunk_size) (int (length text))
            \<or> (start + chunk_size < int (length text)
                \<and> max (start + chunk_size - 200) start + 2 \<le> e \<and> e \<le> start + chunk_size + 1)"
    by blast
  from e(2) assms(1) have "e \<le> int (length text) \<and> (e < int (length text) \<longrightarrow> start < e - overlap)"
    unfolding progress_config_def by (elim disjE) linarith+
  with e(1) show ?thesis by blast
qed

lemma loops_agree:
  assumes cfg: "progress_config chunk_size overlap"
  shows "0 \<le> start \<Longrightarrow>
     \<exists>ws. window_loop text chunk_size overlap start acc = Some (Inr (acc @ ws))
        \<and> chunk_loop text url chunk_size overlap start idx cs
             = Some (Inr (cs @ emit_chunks text url idx ws))
        \<and> window_chain text chunk_size overlap start ws"
proof (induction "nat (int (length text) - start)" arbitrary: start acc idx cs rule: less_induct)
  case less
  show ?case
  proof (cases "start < int (length text)")
    case False
    then have "window_loop text chunk_size overlap start acc = Some (Inr (acc @ []))"
      by (subst window_loop.simps) simp
    moreover from False have "chunk_loop text url chunk_size overlap start idx cs
             = Some (Inr (cs @ emit_chunks text url idx []))"
      by (subst chunk_loop.simps) simp
    moreover from False have "window_chain text chunk_size overlap start []" by simp
    ultimately show ?thesis by blast
  next
    case True
    from window_end_progress[OF cfg less.prems True] obtain e where
      e: "window_end text chunk_size start = Inr e" "e \<le> int (length text)"
         "e < int (length text) \<longrightarrow> start < e - overlap" by blast
    let ?s = "if e < int (length text) then e - overlap else e"
    let ?idx = "if strip (py_slice text start e) \<noteq> [] then idx + 1 else idx"
    let ?cs = "if strip (py_slice text start e) \<noteq> []
                then cs @ [\<lparr>chunk_id = make_chunk_id url idx,
                                chunk_text = strip (py_slice text start e),
                                start_char = start, end_char = e, dom_selector = None\<rparr>]
                else cs"
    have s0: "0 \<le> ?s" using e less.prems True by auto
    have dec: "nat (int (length text) - ?s) < nat (int (length text) - start)"
      using e True by auto
    from less.hyps[OF dec s0, of "acc @ [(start, e)]" ?idx ?cs] obtain ws where
      ws: "window_loop text chunk_size overlap ?s (acc @ [(start, e)]) = Some (Inr ((acc @ [(start, e)]) @ ws))"
          "chunk_loop text url chunk_size overlap ?s ?idx ?cs = Some (Inr (?cs @ emit_chunks text url ?idx ws))"
          "window_chain text chunk_size overlap ?s ws" by blast
    have w1: "window_loop text chunk_size overlap start acc = Some (Inr (acc @ (start, e) # ws))"
      by (subst window_loop.simps) (simp add: True e(1) ws(1))
    have c1: "chunk_loop text url chunk_size overlap start idx cs
                = chunk_loop text url chunk_size overlap ?s ?idx ?cs"
      by (subst chunk_loop.simps) (simp add: True e(1))
    have c2: "?cs @ emit_chunks text url ?idx ws = cs @ emit_chunks text url idx ((start, e) # ws)"
      by simp
    have ch: "window_chain text chunk_size overlap start ((start, e) # ws)"
      using True less.prems e(1) ws(3) by simp
    from w1 c1 c2 ws(2) ch show ?thesis by metis
  qed
qed

lemma create_chunks_windows:
  assumes cfg: "progress_config chunk_size overlap"
  shows "\<exists>ws. windows text chunk_size overlap = Some (Inr ws)
        \<and> create_chunks text url chunk_size overlap = Some (Inr (emit_chunks text url 0 ws))
        \<and> window_chain text chunk_size overlap 0 ws"
  using loops_agree[OF cfg, where start = 0 and acc = "[]" and idx = 0 and cs = "[]"]
  by (simp add: windows_def create_chunks_def)

lemma window_chain_bounds:
  assumes cfg: "progress_config chunk_size overlap"
  shows "window_chain text chunk_size overlap s ws \<Longrightarrow> (a, b) \<in> set ws \<Longrightarrow>
     s \<le> a \<and> 0 \<le> a \<and> a < int (length text) \<and> b \<le> int (length text)
       \<and> window_end text chunk_size a = Inr b"
proof (induction ws arbitrary: s)
  case Nil
  then show ?case by simp
next
  case (Cons w ws)
  obtain a0 b0 where w: "w = (a0, b0)" by (cases w)
  from Cons.prems(1) w have h: "a0 = s" "0 \<le> s" "s < int (length text)"
    "window_end text chunk_size s = Inr b0"
    "window_chain text chunk_size overlap (if b0 < int (length text) then b0 - overlap else b0) ws"
    by simp_all
  from window_end_progress[OF cfg h(2,3)] h(4) have b0: "b0 \<le> int (length text)"
    "b0 < int (length text) \<longrightarrow> s < b0 - overlap" by auto
  show ?case
  proof (cases "(a, b) = w")
    case True
    with w h b0 show ?thesis by simp
  next
    case False
    with Cons.prems(2) have "(a, b) \<in> set ws" by simp
    from Cons.IH[OF h(5) this] b0 show ?thesis by (auto split: if_splits)
  qed
qed

lemma window_chain_sorted:
  assumes cfg: "progress_config chunk_size overlap"
  shows "window_chain text chunk_size overlap s ws \<Longrightarrow>
     sorted_wrt (\<lambda>(a, b) (a', b'). a < a' \<and> b \<le> a' + overlap \<and> b < int (length text)) ws"
proof (induction ws arbitrary: s)
  case Nil
  then show ?case by simp
next
  case (Cons w ws)
  obtain a0 b0 where w: "w = (a0, b0)" by (cases w)
  from Cons.prems(1) w have h: "a0 = s" "0 \<le> s" "s < int (length text)"
    "window_end text chunk_size s = Inr b0"
    "window_chain text chunk_size overlap (if b0 < int (length text) then b0 - overlap else b0) ws"
    by simp_all
  from window_end_progress[OF cfg h(2,3)] h(4) have b0: "b0 \<le> int (length text)"
    "b0 < int (length text) \<longrightarrow> s < b0 - overlap" by auto
  have "\<forall>(a', b') \<in> set ws. a0 < a' \<and> b0 \<le> a' + overlap \<and> b0 < int (length text)"
  proof (clarify)
    fix a' b' assume m: "(a', b') \<in> set ws"
    from window_chain_bounds[OF cfg h(5) m]
    have "(if b0 < int (length text) then b0 - overlap else b0) \<le> a'" "a' < int (length text)" by simp_all
    with b0 h(1) show "a0 < a' \<and> b0 \<le> a' + overlap \<and> b0 < int (length text)"
      by (auto split: if_splits)
  qed
  with Cons.IH[OF h(5)] w show ?case by auto
qed

lemma window_chain_cover:
  assumes cfg: "progress_config chunk_size overlap" and ov: "0 \<le> overlap"
  shows "window_chain text chunk_size overlap s ws \<Longrightarrow> s \<le> i \<Longrightarrow> i < int (length text) \<Longrightarrow>
     \<exists>(a, b) \<in> set ws. a \<le> i \<and> i < b"
proof (induction ws arbitrary: s)
  case Nil
  then show ?case by simp
next
  case (Cons w ws)
  obtain a0 b0 where w: "w = (a0, b0)" by (cases w)
  from Cons.prems(1) w have h: "a0 = s" "0 \<le> s" "s < int (length text)"
    "window_end text chunk_size s = Inr b0"
    "window_chain text chunk_size overlap (if b0 < int (length text) then b0 - overlap else b0) ws"
    by simp_all
  show ?case
  proof (cases "i < b0")
    case True
    with h(1) Cons.prems(2) w show ?thesis by auto
  next
    case False
    with Cons.prems(3) ov have "(if b0 < int (length text) then b0 - overlap else b0) \<le> i" by auto
    from Cons.IH[OF h(5) this Cons.prems(3)] show ?thesis by auto
  qed
qed

lemma window_chain_last:
  "window_chain text chunk_size overlap s ws \<Longrightarrow> ws \<noteq> [] \<Longrightarrow>
      progress_config chunk_size overlap \<and> 0 \<le> overlap \<Longrightarrow> snd (last ws) = int (length text)"
proof (induction ws arbitrary: s)
  case Nil
  then show ?case by simp
next
  case (Cons w ws)
  obtain a0 b0 where w: "w = (a0, b0)" by (cases w)
  from Cons.prems(1) w have h: "a0 = s" "0 \<le> s" "s < int (length text)"
    "window_end text chunk_size s = Inr b0"
    "window_chain text chunk_size overlap (if b0 < int (length text) then b0 - overlap else b0) ws"
    by simp_all
  from Cons.prems(3) have cfg: "progress_config chunk_size overlap" and ov: "0 \<le> overlap" by simp_all
  from window_end_progress[OF cfg h(2,3)] h(4) have b0: "b0 \<le> int (length text)" by auto
  show ?case
  proof (cases "ws = []")
    case True
    with h(5) b0 w ov show ?thesis by (auto split: if_splits)
  next
    case False
    with Cons.IH[OF h(5) False Cons.prems(3)] show ?thesis by simp
  qed
qed

lemma emit_chunks_spans:
  "map (\<lambda>c. (start_char c, end_char c)) (emit_chunks text url idx ws) = filter (nonblank text) ws"
  by (induction ws arbitrary: idx) (auto simp: nonblank_def)

lemma emit_chunks_text:
  "c \<in> set (emit_chunks text url idx ws) \<Longrightarrow>
     chunk_text c = strip (py_slice text (start_char c) (end_char c)) \<and> chunk_text c \<noteq> []
     \<and> dom_selector c = None"
  by (induction ws arbitrary: idx) (auto split: if_splits)

lemma emit_chunks_ids:
  "map chunk_id (emit_chunks text url idx ws)
     = map (make_chunk_id url) [idx ..< idx + length (emit_chunks text url idx ws)]"
proof (induction ws arbitrary: idx)
  case Nil
  then show ?case by simp
next
  case (Cons w ws)
  obtain a b where w: "w = (a, b)" by (cases w)
  show ?case
  proof (cases "strip (py_slice text a b) \<noteq> []")
    case True
    have "[idx ..< idx + Suc (length (emit_chunks text url (idx + 1) ws))]
            = idx # [idx + 1 ..< idx + 1 + length (emit_chunks text url (idx + 1) ws)]"
      by (subst upt_rec) simp
    with True Cons[of "idx + 1"] w show ?thesis by simp
  next
    case False
    with Cons[of idx] w show ?thesis by simp
  qed
qed

section \<open>Slices, trimming and the loop invariant rule\<close>

lemma py_slice_nonneg:
  "0 \<le> a \<Longrightarrow> 0 \<le> b \<Longrightarrow> py_slice s a b = take (nat b - nat a) (drop (nat a) s)"
  by (auto simp: py_slice_def slice_bound_def Let_def min_def max_def)

lemma py_slice_nonempty:
  "0 \<le> a \<Longrightarrow> 0 \<le> b \<Longrightarrow> py_slice s a b \<noteq> [] \<Longrightarrow> a < b"
  by (auto simp: py_slice_nonneg)

lemma length_py_slice: "a \<le> b \<Longrightarrow> int (length (py_slice s a b)) \<le> b - a"
  by (auto simp: py_slice_def slice_bound_def Let_def min_def max_def)

lemma nth_in_py_slice:
  assumes "0 \<le> a" "a \<le> i" "i < b" "b \<le> int (length s)"
  shows "s ! nat i \<in> set (py_slice s a b)"
proof -
  have "py_slice s a b = take (nat b - nat a) (drop (nat a) s)"
    using assms by (simp add: py_slice_nonneg)
  moreover have "nat i - nat a < length (take (nat b - nat a) (drop (nat a) s))"
    using assms by auto
  moreover have "take (nat b - nat a) (drop (nat a) s) ! (nat i - nat a) = s ! nat i"
    using assms by auto
  ultimately show ?thesis by (metis nth_mem)
qed

lemma strip_eq_Nil_iff: "strip s = [] \<longleftrightarrow> (\<forall>c\<in>set s. isspace c)"
proof
  assume "strip s = []"
  then have a: "\<forall>x\<in>set (dropWhile isspace s). isspace x"
    by (simp add: strip_def dropWhile_eq_Nil_conv)
  have "dropWhile isspace s = []"
  proof (rule ccontr)
    assume n: "dropWhile isspace s \<noteq> []"
    then have "\<not> isspace (hd (dropWhile isspace s))" by (rule hd_dropWhile)
    moreover from n have "hd (dropWhile isspace s) \<in> set (dropWhile isspace s)" by simp
    ultimately show False using a by blast
  qed
  then show "\<forall>c\<in>set s. isspace c" by (simp add: dropWhile_eq_Nil_conv)
next
  assume "\<forall>c\<in>set s. isspace c"
  then show "strip s = []"
    by (auto simp: strip_def dropWhile_eq_Nil_conv dest: set_dropWhileD)
qed

lemma strip_contiguous: "\<exists>pre post. s = pre @ strip s @ post"
proof -
  let ?t = "dropWhile isspace s"
  have "s = takeWhile isspace s @ ?t" by simp
  moreover have "rev ?t = takeWhile isspace (rev ?t) @ dropWhile isspace (rev ?t)" by simp
  then have "?t = rev (dropWhile isspace (rev ?t)) @ rev (takeWhile isspace (rev ?t))"
    by (metis rev_append rev_rev_ident)
  then have "?t = strip s @ rev (takeWhile isspace (rev ?t))" by (simp add: strip_def)
  ultimately have "s = takeWhile isspace s @ strip s @ rev (takeWhile isspace (rev ?t))" by metis
  then show ?thesis by blast
qed

lemma length_strip_le: "length (strip s) \<le> length s"
proof -
  obtain pre post where "s = pre @ strip s @ post" using strip_contiguous by blast
  then have "length s = length pre + length (strip s) + length post" by (metis length_append add.assoc)
  then show ?thesis by simp
qed

lemma sentence_break_result:
  "sentence_break text e is = Inr e' \<Longrightarrow> e' = e \<or> (\<exists>i\<in>set is. e' = i + 1)"
  by (induction "is") (auto split: sum.splits if_splits)

lemma window_end_ge:
  assumes "window_end text chunk_size s = Inr e" "0 \<le> chunk_size" "s < int (length text)"
  shows "s \<le> e"
proof (cases "s + chunk_size < int (length text)")
  case False
  then have "min (s + chunk_size) (int (length text)) = int (length text)" by linarith
  with assms show ?thesis by (simp add: window_end_def Let_def)
next
  case True
  then have m: "min (s + chunk_size) (int (length text)) = s + chunk_size" by linarith
  from assms(1) True have "sentence_break text (s + chunk_size)
       (range_down (s + chunk_size) (max (s + chunk_size - 200) s)) = Inr e"
    unfolding window_end_def Let_def m by simp
  from sentence_break_result[OF this] assms(2,3) show ?thesis
    by (auto simp: range_down_def)
qed

lemma chunk_loop_invariant:
  assumes run: "chunk_loop text url chunk_size overlap start idx cs = Some (Inr out)"
    and init: "I start idx cs"
    and step: "\<And>s i c e. I s i c \<Longrightarrow> s < int (length text) \<Longrightarrow> window_end text chunk_size s = Inr e \<Longrightarrow>
        I (if e < int (length text) then e - overlap else e)
          (if strip (py_slice text s e) \<noteq> [] then i + 1 else i)
          (if strip (py_slice text s e) \<noteq> []
           then c @ [\<lparr>chunk_id = make_chunk_id url i, chunk_text = strip (py_slice text s e),
                       start_char = s, end_char = e, dom_selector = None\<rparr>]
           else c)"
  shows "\<exists>s i. I s i out \<and> \<not> s < int (length text)"
proof -
  have "text = text \<and> url = url \<and> chunk_size = chunk_size \<and> overlap = overlap \<and> I start idx cs \<longrightarrow>
          (\<forall>r. (Inr out :: py_error + TextChunk list) = Inr r \<longrightarrow> (\<exists>s i. I s i r \<and> \<not> s < int (length text)))"
  proof (rule chunk_loop.raw_induct[where P = "\<lambda>t u sz ov s i c y.
           t = text \<and> u = url \<and> sz = chunk_size \<and> ov = overlap \<and> I s i c \<longrightarrow>
             (\<forall>r. y = Inr r \<longrightarrow> (\<exists>s i. I s i r \<and> \<not> s < int (length text)))", OF _ run], goal_cases)
    case (1 loop t u sz ov s i c y)
    note IH = 1(1) and body = 1(2)
    show ?case
    proof (intro impI allI, elim conjE)
      fix r
      assume eqs: "t = text" "u = url" "sz = chunk_size" "ov = overlap" and inv: "I s i c"
        and y: "y = Inr r"
      show "\<exists>s i. I s i r \<and> \<not> s < int (length text)"
      proof (cases "s < int (length text)")
        case False
        with body eqs y have "r = c" by simp
        with inv False show ?thesis by blast
      next
        case True
        then have lt: "s < int (length t)" using eqs by simp
        note b1 = body[unfolded if_P[OF lt]]
        show ?thesis
        proof (cases "window_end t sz s")
          case (Inl err)
          with b1 y show ?thesis by simp
        next
          case (Inr e)
          note b2 = b1[unfolded Inr sum.case]
          from Inr eqs have "window_end text chunk_size s = Inr e" by simp
          from step[OF inv True this] IH[OF b2] y show ?thesis unfolding eqs by blast
        qed
      qed
    qed
  qed
  with init show ?thesis by simp
qed

section \<open>Properties of the chunker\<close>

lemma length_hexdigest: "length (hexdigest bs) = 2 * length bs"
  by (induction bs) (simp_all add: hexdigest_def)

lemma length_md5_digest: "length (md5_digest m) = 16"
  by (simp add: md5_digest_def le_bytes_def Let_def split: prod.splits)

lemma length_make_chunk_id: "length (make_chunk_id url k) = 16"
  by (simp add: make_chunk_id_def md5_hexdigest_def length_hexdigest length_md5_digest)

text \<open>
  Claim C7. The identifiers of a returned chunk sequence are \<open>make_chunk_id url 0\<close>,
  \<open>make_chunk_id url 1\<close>, \<dots> in order: the id of a chunk is a function of the source id
  and of its 0-based position among the emitted chunks, and of nothing else, so two runs
  on the same text and source id give the same ids. Every id has 16 characters.
\<close>

theorem chunk_ids_by_index:
  assumes "create_chunks text url chunk_size overlap = Some (Inr chunks)"
  shows "map chunk_id chunks = map (make_chunk_id url) [0..<length chunks]
       \<and> (\<forall>k<length chunks. length (chunk_id (chunks ! k)) = 16)"
proof -
  from assms have run: "chunk_loop text url chunk_size overlap 0 0 [] = Some (Inr chunks)"
    by (simp add: create_chunks_def)
  have "\<exists>s i. (i = length chunks \<and> map chunk_id chunks = map (make_chunk_id url) [0..<length chunks])
            \<and> \<not> s < int (length text)"
    by (rule chunk_loop_invariant[OF run,
          where I = "\<lambda>s i c. i = length c \<and> map chunk_id c = map (make_chunk_id url) [0..<length c]"])
       auto
  then have ids: "map chunk_id chunks = map (make_chunk_id url) [0..<length chunks]" by blast
  have "\<forall>k<length chunks. length (chunk_id (chunks ! k)) = 16"
  proof (intro allI impI)
    fix k assume k: "k < length chunks"
    then have "chunk_id (chunks ! k) = map chunk_id chunks ! k" by simp
    also have "\<dots> = make_chunk_id url k" using k by (simp add: ids)
    finally show "length (chunk_id (chunks ! k)) = 16" by (simp add: length_make_chunk_id)
  qed
  with ids show ?thesis by blast
qed

text \<open>
  Claim C10. For every chunk of a returned sequence (window size not negative), the text
  is the trimmed slice \<^verbatim>\<open>text[start_char:end_char].strip()\<close>; it is a contiguous part of
  that slice, not longer than \<open>end_char - start_char\<close>, and not empty: a window whose
  slice trims to the empty string is not emitted.
\<close>

theorem chunk_text_trimmed_slice:
  assumes "0 \<le> chunk_size"
      and "create_chunks text url chunk_size overlap = Some (Inr chunks)"
      and "c \<in> set chunks"
  shows "chunk_text c = strip (py_slice text (start_char c) (end_char c))
       \<and> (\<exists>pre post. py_slice text (start_char c) (end_char c) = pre @ chunk_text c @ post)
       \<and> int (length (chunk_text c)) \<le> end_char c - start_char c
       \<and> chunk_text c \<noteq> []"
proof -
  let ?good = "\<lambda>x. chunk_text x = strip (py_slice text (start_char x) (end_char x))
                   \<and> start_char x \<le> end_char x \<and> chunk_text x \<noteq> []"
  from assms(2) have run: "chunk_loop text url chunk_size overlap 0 0 [] = Some (Inr chunks)"
    by (simp add: create_chunks_def)
  have "\<exists>s (i::nat). (\<forall>x\<in>set chunks. ?good x) \<and> \<not> s < int (length text)"
  proof (rule chunk_loop_invariant[OF run, where I = "\<lambda>s i cs. \<forall>x\<in>set cs. ?good x"], goal_cases)
    case 1
    then show ?case by simp
  next
    case (2 s i cs e)
    from window_end_ge[OF 2(3) assms(1) 2(2)] have "s \<le> e" .
    with 2(1) show ?case by auto
  qed
  with assms(3) have g: "?good c" by blast
  then have t: "chunk_text c = strip (py_slice text (start_char c) (end_char c))"
    and le: "start_char c \<le> end_char c" and ne: "chunk_text c \<noteq> []" by blast+
  from strip_contiguous[of "py_slice text (start_char c) (end_char c)"] t
  have sub: "\<exists>pre post. py_slice text (start_char c) (end_char c) = pre @ chunk_text c @ post"
    by simp
  have "length (chunk_text c) \<le> length (py_slice text (start_char c) (end_char c))"
    using t length_strip_le by simp
  with length_py_slice[OF le, of "text"] have "int (length (chunk_text c)) \<le> end_char c - start_char c"
    by linarith
  with t sub ne show ?thesis by blast
qed

text \<open>The end of a window as a function of its start.\<close>

lemma sentence_break_first:
  "sentence_break text e is = Inr e' \<Longrightarrow>
     (e' = e \<and> (\<forall>i\<in>set is. \<forall>c. py_getitem text i = Inr c \<longrightarrow> c \<notin> set ''.!?''))
     \<or> (\<exists>pre i post c. is = pre @ i # post \<and> py_getitem text i = Inr c \<and> c \<in> set ''.!?'' \<and> e' = i + 1
           \<and> (\<forall>j\<in>set pre. \<forall>c. py_getitem text j = Inr c \<longrightarrow> c \<notin> set ''.!?''))"
proof (induction "is")
  case Nil
  then show ?case by simp
next
  case (Cons i "is")
  show ?case
  proof (cases "py_getitem text i")
    case (Inl err)
    with Cons.prems show ?thesis by simp
  next
    case (Inr c)
    show ?thesis
    proof (cases "c \<in> set ''.!?''")
      case True
      with Inr Cons.prems have "e' = i + 1" by simp
      with Inr True have "i # is = [] @ i # is \<and> py_getitem text i = Inr c \<and> c \<in> set ''.!?'' \<and> e' = i + 1
           \<and> (\<forall>j\<in>set []. \<forall>c. py_getitem text j = Inr c \<longrightarrow> c \<notin> set ''.!?'')" by simp
      then show ?thesis by blast
    next
      case False
      with Inr Cons.prems have "sentence_break text e is = Inr e'" by simp
      from Cons.IH[OF this] show ?thesis
      proof
        assume "e' = e \<and> (\<forall>i\<in>set is. \<forall>c. py_getitem text i = Inr c \<longrightarrow> c \<notin> set ''.!?'')"
        with Inr False show ?thesis by auto
      next
        assume "\<exists>pre i post c. is = pre @ i # post \<and> py_getitem text i = Inr c \<and> c \<in> set ''.!?'' \<and> e' = i + 1
           \<and> (\<forall>j\<in>set pre. \<forall>c. py_getitem text j = Inr c \<longrightarrow> c \<notin> set ''.!?'')"
        then obtain pre k post d where h: "is = pre @ k # post" "py_getitem text k = Inr d" "d \<in> set ''.!?''"
          "e' = k + 1" "\<forall>j\<in>set pre. \<forall>c. py_getitem text j = Inr c \<longrightarrow> c \<notin> set ''.!?''" by blast
        from h(1) have "i # is = (i # pre) @ k # post" by simp
        moreover from h(5) Inr False
        have "\<forall>j\<in>set (i # pre). \<forall>c. py_getitem text j = Inr c \<longrightarrow> c \<notin> set ''.!?''" by auto
        ultimately show ?thesis using h(2,3,4) by blast
      qed
    qed
  qed
qed

lemma range_down_split:
  assumes "range_down a b = pre @ i # post"
  shows "b < i \<and> i \<le> a \<and> set pre = {j. i < j \<and> j \<le> a}"
proof -
  from assms have r: "[b + 1 .. a] = rev post @ i # rev pre" by (simp add: range_down_def rev_swap)
  have m: "i \<in> set [b + 1 .. a]" unfolding r by simp
  have s: "sorted [b + 1 .. a]" "distinct [b + 1 .. a]" by simp_all
  from s(1) have a1: "\<forall>x\<in>set (rev post). x \<le> i" and a2: "\<forall>y\<in>set (rev pre). i \<le> y"
    unfolding r by (auto simp: sorted_append)
  from s(2) have d: "i \<notin> set (rev pre)" "i \<notin> set (rev post)" unfolding r by auto
  have "set [b + 1 .. a] = set (rev post) \<union> {i} \<union> set (rev pre)" unfolding r by auto
  then have u: "{b + 1 .. a} = set post \<union> {i} \<union> set pre" by simp
  have "set pre = {j. i < j \<and> j \<le> a}"
  proof (intro set_eqI iffI)
    fix j assume j: "j \<in> set pre"
    with a2 d have "i < j" by (metis order_le_less set_rev)
    moreover from j u have "j \<in> {b + 1 .. a}" by blast
    ultimately show "j \<in> {j. i < j \<and> j \<le> a}" by simp
  next
    fix j assume "j \<in> {j. i < j \<and> j \<le> a}"
    then have j: "i < j" "j \<le> a" by simp_all
    from m have "b + 1 \<le> i" by simp
    with j have "j \<in> {b + 1 .. a}" by simp
    with u have "j \<in> set post \<or> j = i \<or> j \<in> set pre" by blast
    with a1 j show "j \<in> set pre" by auto
  qed
  with m show ?thesis by simp
qed

text \<open>The refined end of a window, in full: the end is the unrefined one when no
  character of the search range is a terminator, and otherwise one past the rightmost
  terminator of the range.\<close>

lemma window_end_cases:
  assumes "window_end text chunk_size s = Inr e"
  shows "(int (length text) \<le> s + chunk_size \<and> e = int (length text))
       \<or> (s + chunk_size < int (length text) \<and> e = s + chunk_size
            \<and> (\<forall>j. max (s + chunk_size - 200) s < j \<and> j \<le> s + chunk_size \<longrightarrow>
                   (\<forall>c. py_getitem text j = Inr c \<longrightarrow> c \<notin> set ''.!?'')))
       \<or> (s + chunk_size < int (length text)
            \<and> (\<exists>i c. e = i + 1 \<and> max (s + chunk_size - 200) s < i \<and> i \<le> s + chunk_size
                   \<and> py_getitem text i = Inr c \<and> c \<in> set ''.!?''
                   \<and> (\<forall>j. i < j \<and> j \<le> s + chunk_size \<longrightarrow>
                         (\<forall>c. py_getitem text j = Inr c \<longrightarrow> c \<notin> set ''.!?''))))"
proof (cases "s + chunk_size < int (length text)")
  case False
  then have "min (s + chunk_size) (int (length text)) = int (length text)" by linarith
  with assms False show ?thesis by (simp add: window_end_def Let_def)
next
  case True
  then have m: "min (s + chunk_size) (int (length text)) = s + chunk_size" by linarith
  let ?lo = "max (s + chunk_size - 200) s"
  from assms True have sb: "sentence_break text (s + chunk_size) (range_down (s + chunk_size) ?lo) = Inr e"
    unfolding window_end_def Let_def m by simp
  from sentence_break_first[OF sb] show ?thesis
  proof
    assume a: "e = s + chunk_size
        \<and> (\<forall>i\<in>set (range_down (s + chunk_size) ?lo). \<forall>c. py_getitem text i = Inr c \<longrightarrow> c \<notin> set ''.!?'')"
    have "\<forall>j. ?lo < j \<and> j \<le> s + chunk_size \<longrightarrow> (\<forall>c. py_getitem text j = Inr c \<longrightarrow> c \<notin> set ''.!?'')"
    proof (intro allI impI)
      fix j c assume "?lo < j \<and> j \<le> s + chunk_size" "py_getitem text j = Inr c"
      moreover from this(1) have "j \<in> set (range_down (s + chunk_size) ?lo)" by (auto simp: range_down_def)
      ultimately show "c \<notin> set ''.!?''" using a by blast
    qed
    with a True show ?thesis by blast
  next
    assume "\<exists>pre i post c. range_down (s + chunk_size) ?lo = pre @ i # post \<and> py_getitem text i = Inr c
          \<and> c \<in> set ''.!?'' \<and> e = i + 1
          \<and> (\<forall>j\<in>set pre. \<forall>c. py_getitem text j = Inr c \<longrightarrow> c \<notin> set ''.!?'')"
    then obtain pre i post c where h: "range_down (s + chunk_size) ?lo = pre @ i # post"
      "py_getitem text i = Inr c" "c \<in> set ''.!?''" "e = i + 1"
      "\<forall>j\<in>set pre. \<forall>c. py_getitem text j = Inr c \<longrightarrow> c \<notin> set ''.!?''" by blast
    from range_down_split[OF h(1)] have r: "?lo < i" "i \<le> s + chunk_size"
      "set pre = {j. i < j \<and> j \<le> s + chunk_size}" by simp_all
    from h(5) r(3) have "\<forall>j. i < j \<and> j \<le> s + chunk_size \<longrightarrow>
                         (\<forall>c. py_getitem text j = Inr c \<longrightarrow> c \<notin> set ''.!?'')" by simp
    with h(2,3,4) r(1,2) True show ?thesis by blast
  qed
qed

lemma window_end_le_length:
  assumes "window_end text chunk_size s = Inr e"
  shows "e \<le> int (length text)"
  using window_end_cases[OF assms] by auto

text \<open>The refined end does not decrease when the start moves right.\<close>

lemma window_end_mono:
  assumes a: "window_end text chunk_size s = Inr e" and b: "window_end text chunk_size s' = Inr e'"
      and le: "s \<le> s'"
  shows "e \<le> e'"
proof -
  note A = window_end_cases[OF a] and B = window_end_cases[OF b]
  from window_end_le_length[OF a] have el: "e \<le> int (length text)" .
  from B consider
      (fit) "int (length text) \<le> s' + chunk_size" "e' = int (length text)"
    | (plain) "s' + chunk_size < int (length text)" "e' = s' + chunk_size"
        "\<forall>j. max (s' + chunk_size - 200) s' < j \<and> j \<le> s' + chunk_size \<longrightarrow>
                   (\<forall>c. py_getitem text j = Inr c \<longrightarrow> c \<notin> set ''.!?'')"
    | (brk) i' c' where "s' + chunk_size < int (length text)" "e' = i' + 1"
        "max (s' + chunk_size - 200) s' < i'" "i' \<le> s' + chunk_size"
        "py_getitem text i' = Inr c'" "c' \<in> set ''.!?''"
        "\<forall>j. i' < j \<and> j \<le> s' + chunk_size \<longrightarrow> (\<forall>c. py_getitem text j = Inr c \<longrightarrow> c \<notin> set ''.!?'')"
    by blast
  then show ?thesis
  proof cases
    case fit
    with el show ?thesis by simp
  next
    case plain
    from plain(1) le have lt: "s + chunk_size < int (length text)" by linarith
    from A lt consider
        (p) "e = s + chunk_size"
      | (q) i c where "e = i + 1" "max (s + chunk_size - 200) s < i" "i \<le> s + chunk_size"
          "py_getitem text i = Inr c" "c \<in> set ''.!?''"
      by auto
    then show ?thesis
    proof cases
      case p
      with plain(2) le show ?thesis by linarith
    next
      case q
      from plain(3) q(4,5) have "\<not> (max (s' + chunk_size - 200) s' < i \<and> i \<le> s' + chunk_size)" by blast
      with q(2,3) le have "i \<le> max (s' + chunk_size - 200) s'" "0 < chunk_size" by linarith+
      then have "i < s' + chunk_size" by linarith
      with q(1) plain(2) show ?thesis by linarith
    qed
  next
    case brk
    from brk(1) le have lt: "s + chunk_size < int (length text)" by linarith
    from A lt consider
        (p) "e = s + chunk_size"
          "\<forall>j. max (s + chunk_size - 200) s < j \<and> j \<le> s + chunk_size \<longrightarrow>
                   (\<forall>c. py_getitem text j = Inr c \<longrightarrow> c \<notin> set ''.!?'')"
      | (q) i c where "e = i + 1" "max (s + chunk_size - 200) s < i" "i \<le> s + chunk_size"
          "py_getitem text i = Inr c" "c \<in> set ''.!?''"
      by auto
    then show ?thesis
    proof cases
      case p
      from p(2) brk(5,6) have "\<not> (max (s + chunk_size - 200) s < i' \<and> i' \<le> s + chunk_size)" by blast
      with brk(3) le have "s + chunk_size < i'" by linarith
      with p(1) brk(2) show ?thesis by linarith
    next
      case q
      from brk(7) q(4,5) have "\<not> (i' < i \<and> i \<le> s' + chunk_size)" by blast
      with q(3) le have "i \<le> i'" by linarith
      with q(1) brk(2) show ?thesis by linarith
    qed
  qed
qed


text \<open>Induction over a run that returns: the property is shown for a state at which the
  loop stops, and for a state with a window from the state that follows it, from which the
  loop returns as well.\<close>

lemma chunk_loop_returned_induct:
  assumes run: "chunk_loop text url chunk_size overlap start idx cs = Some (Inr out)"
    and base: "\<And>s i c. \<not> s < int (length text) \<Longrightarrow> P s i c c"
    and step: "\<And>s i c e r. s < int (length text) \<Longrightarrow> window_end text chunk_size s = Inr e \<Longrightarrow>
        chunk_loop text url chunk_size overlap
          (if e < int (length text) then e - overlap else e)
          (if strip (py_slice text s e) \<noteq> [] then i + 1 else i)
          (if strip (py_slice text s e) \<noteq> []
           then c @ [\<lparr>chunk_id = make_chunk_id url i, chunk_text = strip (py_slice text s e),
                       start_char = s, end_char = e, dom_selector = None\<rparr>]
           else c) = Some (Inr r) \<Longrightarrow>
        P (if e < int (length text) then e - overlap else e)
          (if strip (py_slice text s e) \<noteq> [] then i + 1 else i)
          (if strip (py_slice text s e) \<noteq> []
           then c @ [\<lparr>chunk_id = make_chunk_id url i, chunk_text = strip (py_slice text s e),
                       start_char = s, end_char = e, dom_selector = None\<rparr>]
           else c) r \<Longrightarrow>
        P s i c r"
  shows "P start idx cs out"
proof -
  have "text = text \<and> url = url \<and> chunk_size = chunk_size \<and> overlap = overlap \<longrightarrow>
          chunk_loop text url chunk_size overlap start idx cs = Some (Inr out)
          \<and> (\<forall>r. (Inr out :: py_error + TextChunk list) = Inr r \<longrightarrow> P start idx cs r)"
  proof (rule chunk_loop.raw_induct[where P = "\<lambda>t u sz ov s i c y.
           t = text \<and> u = url \<and> sz = chunk_size \<and> ov = overlap \<longrightarrow>
             chunk_loop text url chunk_size overlap s i c = Some y
             \<and> (\<forall>r. y = Inr r \<longrightarrow> P s i c r)", OF _ run], goal_cases)
    case (1 loop t u sz ov s i c y)
    note IH = 1(1) and body = 1(2)
    show ?case
    proof (intro impI, elim conjE)
      assume eqs: "t = text" "u = url" "sz = chunk_size" "ov = overlap"
      show "chunk_loop text url chunk_size overlap s i c = Some y \<and> (\<forall>r. y = Inr r \<longrightarrow> P s i c r)"
      proof (cases "s < int (length text)")
        case False
        with body eqs have y: "y = Inr c" by simp
        from False have "chunk_loop text url chunk_size overlap s i c = Some (Inr c)"
          by (rule chunk_loop_done)
        with y base[OF False] show ?thesis by simp
      next
        case True
        then have lt: "s < int (length t)" using eqs by simp
        note b1 = body[unfolded if_P[OF lt]]
        show ?thesis
        proof (cases "window_end t sz s")
          case (Inl err)
          with b1 have y: "y = Inl err" by simp
          from Inl eqs have "window_end text chunk_size s = Inl err" by simp
          with True have "chunk_loop text url chunk_size overlap s i c = Some (Inl err)"
            by (subst chunk_loop.simps) simp
          with y show ?thesis by simp
        next
          case (Inr e)
          note b2 = b1[unfolded Inr sum.case]
          from Inr eqs have w: "window_end text chunk_size s = Inr e" by simp
          have tr: "text = text \<and> url = url \<and> chunk_size = chunk_size \<and> overlap = overlap" by simp
          note nq = mp[OF IH[OF b2, unfolded eqs] tr]
          note n = nq[THEN conjunct1] and q = nq[THEN conjunct2]
          have c1: "chunk_loop text url chunk_size overlap s i c = Some y"
            by (subst chunk_loop.simps) (simp only: if_P[OF True] w sum.case n)
          have "\<forall>r. y = Inr r \<longrightarrow> P s i c r"
          proof (intro allI impI)
            fix r assume y: "y = Inr r"
            from step[OF True w n[unfolded y] q[rule_format, OF y]] show "P s i c r" .
          qed
          with c1 show ?thesis by simp
        qed
      qed
    qed
  qed
  then show ?thesis by simp
qed

text \<open>A start from which the next start is not further right is never left: with an
  overlap that is not negative, the loop does not return from any start at or left of it.\<close>

lemma chunk_loop_stuck:
  assumes run: "chunk_loop text url chunk_size overlap start idx cs = Some (Inr out)"
      and ov: "0 \<le> overlap"
      and s0: "s0 < int (length text)" "window_end text chunk_size s0 = Inr e0"
              "(if e0 < int (length text) then e0 - overlap else e0) \<le> s0"
  shows "s0 < start"
proof -
  have "\<not> start \<le> s0"
  proof (rule chunk_loop_returned_induct[OF run, where P = "\<lambda>s i c r. \<not> s \<le> s0"], goal_cases)
    case (1 s i c)
    with s0(1) show ?case by linarith
  next
    case (2 s i c e r)
    show ?case
    proof
      assume le: "s \<le> s0"
      from window_end_mono[OF 2(2) s0(2) le] have "e \<le> e0" .
      moreover from window_end_le_length[OF s0(2)] have "e0 \<le> int (length text)" .
      ultimately have "(if e < int (length text) then e - overlap else e) \<le> s0"
        using s0(3) ov by (auto split: if_splits)
      with 2(4) show False by simp
    qed
  qed
  then show ?thesis by simp
qed

text \<open>In a run that returns, every window moves the start to the right.\<close>

lemma chunk_loop_progress:
  assumes run: "chunk_loop text url chunk_size overlap
                  (if e < int (length text) then e - overlap else e) idx cs = Some (Inr out)"
      and sz: "0 \<le> chunk_size"
      and s: "s < int (length text)" "window_end text chunk_size s = Inr e"
  shows "s < (if e < int (length text) then e - overlap else e)"
proof (cases "0 \<le> overlap")
  case True
  show ?thesis
  proof (rule ccontr)
    assume "\<not> s < (if e < int (length text) then e - overlap else e)"
    then have "(if e < int (length text) then e - overlap else e) \<le> s" by simp
    from chunk_loop_stuck[OF run True s this] this show False by simp
  qed
next
  case False
  from window_end_ge[OF s(2) sz s(1)] have "s \<le> e" .
  with False s(1) show ?thesis by auto
qed

text \<open>The chunks of a run that returns are the chunks emitted for a chain of windows
  whose starts increase strictly.\<close>

lemma chunk_loop_returned_windows:
  assumes run: "chunk_loop text url chunk_size overlap start idx cs = Some (Inr out)"
      and sz: "0 \<le> chunk_size"
  shows "0 \<le> start \<longrightarrow>
     (\<exists>ws. out = cs @ emit_chunks text url idx ws
         \<and> (\<forall>(a, b)\<in>set ws. start \<le> a \<and> a < int (length text) \<and> a \<le> b \<and> b \<le> int (length text))
         \<and> sorted_wrt (\<lambda>(a, b) (a', b'). a < a' \<and> b \<le> a' + overlap \<and> b < int (length text)) ws)"
proof (rule chunk_loop_returned_induct[OF run, where P = "\<lambda>s i c r. 0 \<le> s \<longrightarrow>
     (\<exists>ws. r = c @ emit_chunks text url i ws
         \<and> (\<forall>(a, b)\<in>set ws. s \<le> a \<and> a < int (length text) \<and> a \<le> b \<and> b \<le> int (length text))
         \<and> sorted_wrt (\<lambda>(a, b) (a', b'). a < a' \<and> b \<le> a' + overlap \<and> b < int (length text)) ws)"],
       goal_cases)
  case (1 s i c)
  have "c = c @ emit_chunks text url i []" by simp
  then show ?case by (intro impI exI[of _ "[]"]) simp
next
  case (2 s i c e r)
  let ?s = "if e < int (length text) then e - overlap else e"
  let ?R = "\<lambda>(a, b) (a', b'). a < a' \<and> b \<le> a' + overlap \<and> b < int (length text)"
  show ?case
  proof
    assume s0: "0 \<le> s"
    from chunk_loop_progress[OF 2(3) sz 2(1,2)] have pr: "s < ?s" .
    with s0 have "0 \<le> ?s" by linarith
    with 2(4) obtain ws where
      ws: "r = (if strip (py_slice text s e) \<noteq> []
                then c @ [\<lparr>chunk_id = make_chunk_id url i, chunk_text = strip (py_slice text s e),
                       start_char = s, end_char = e, dom_selector = None\<rparr>]
                else c) @ emit_chunks text url (if strip (py_slice text s e) \<noteq> [] then i + 1 else i) ws"
          "\<forall>(a, b)\<in>set ws. ?s \<le> a \<and> a < int (length text) \<and> a \<le> b \<and> b \<le> int (length text)"
          "sorted_wrt ?R ws"
      by blast
    from window_end_le_length[OF 2(2)] have el: "e \<le> int (length text)" .
    from window_end_ge[OF 2(2) sz 2(1)] have se: "s \<le> e" .
    have r: "r = c @ emit_chunks text url i ((s, e) # ws)" using ws(1) by simp
    have b: "\<forall>(a, b)\<in>set ((s, e) # ws). s \<le> a \<and> a < int (length text) \<and> a \<le> b \<and> b \<le> int (length text)"
      using ws(2) pr 2(1) el se by auto
    have "\<forall>(a', b')\<in>set ws. s < a' \<and> e \<le> a' + overlap \<and> e < int (length text)"
    proof (clarify)
      fix a' b' assume "(a', b') \<in> set ws"
      with ws(2) have "?s \<le> a'" "a' < int (length text)" by auto
      with pr show "s < a' \<and> e \<le> a' + overlap \<and> e < int (length text)"
        by (auto split: if_splits)
    qed
    with ws(3) have so: "sorted_wrt ?R ((s, e) # ws)" by auto
    from r b so show "\<exists>ws. r = c @ emit_chunks text url i ws
         \<and> (\<forall>(a, b)\<in>set ws. s \<le> a \<and> a < int (length text) \<and> a \<le> b \<and> b \<le> int (length text))
         \<and> sorted_wrt ?R ws" by blast
  qed
qed

text \<open>
  Claim C5. In every returned chunk sequence (window size not negative), each chunk has
  \<open>0 \<le> start_char < end_char \<le> len(text)\<close>, the starts increase strictly, and each chunk
  ends at most \<open>overlap\<close> characters after the start of the next.
\<close>

theorem chunk_spans_monotonic:
  assumes sz: "0 \<le> chunk_size"
      and run: "create_chunks text url chunk_size overlap = Some (Inr chunks)"
  shows "(\<forall>k<length chunks. 0 \<le> start_char (chunks ! k) \<and> start_char (chunks ! k) < end_char (chunks ! k)
                            \<and> end_char (chunks ! k) \<le> int (length text))
       \<and> (\<forall>k. Suc k < length chunks \<longrightarrow>
              start_char (chunks ! k) < start_char (chunks ! Suc k)
            \<and> end_char (chunks ! k) \<le> start_char (chunks ! Suc k) + overlap)"
proof -
  let ?span = "\<lambda>c. (start_char c, end_char c)"
  let ?R = "\<lambda>(a, b) (a', b'). a < a' \<and> b \<le> a' + overlap \<and> b < int (length text)"
  from run have "chunk_loop text url chunk_size overlap 0 0 [] = Some (Inr chunks)"
    by (simp add: create_chunks_def)
  from chunk_loop_returned_windows[OF this sz] obtain ws where
    ws: "chunks = emit_chunks text url 0 ws"
        "\<forall>(a, b)\<in>set ws. 0 \<le> a \<and> a < int (length text) \<and> a \<le> b \<and> b \<le> int (length text)"
        "sorted_wrt ?R ws"
    by auto
  have spans: "map ?span chunks = filter (nonblank text) ws"
    using ws(1) by (simp add: emit_chunks_spans)
  have part1: "\<forall>k<length chunks. 0 \<le> start_char (chunks ! k) \<and> start_char (chunks ! k) < end_char (chunks ! k)
                            \<and> end_char (chunks ! k) \<le> int (length text)"
  proof (intro allI impI)
    fix k assume k: "k < length chunks"
    let ?c = "chunks ! k"
    from k have "?span ?c \<in> set (map ?span chunks)" by simp
    with spans have m: "(start_char ?c, end_char ?c) \<in> set ws"
      and nb: "nonblank text (start_char ?c, end_char ?c)" by simp_all
    from ws(2) m
    have b: "0 \<le> start_char ?c" "start_char ?c \<le> end_char ?c" "end_char ?c \<le> int (length text)"
      by auto
    from nb have "py_slice text (start_char ?c) (end_char ?c) \<noteq> []"
      by (auto simp: nonblank_def)
    from py_slice_nonempty[OF b(1) _ this] b(1,2) have "start_char ?c < end_char ?c" by linarith
    with b show "0 \<le> start_char ?c \<and> start_char ?c < end_char ?c \<and> end_char ?c \<le> int (length text)"
      by simp
  qed
  have "sorted_wrt ?R (filter (nonblank text) ws)"
    using ws(3) by (rule sorted_wrt_filter)
  with spans have "sorted_wrt ?R (map ?span chunks)" by simp
  then have sw: "sorted_wrt (\<lambda>c c'. ?R (?span c) (?span c')) chunks"
    by (simp add: sorted_wrt_map)
  have part2: "\<forall>k. Suc k < length chunks \<longrightarrow>
              start_char (chunks ! k) < start_char (chunks ! Suc k)
            \<and> end_char (chunks ! k) \<le> start_char (chunks ! Suc k) + overlap"
  proof (intro allI impI)
    fix k assume k: "Suc k < length chunks"
    from sorted_wrt_nth_less[OF sw _ k, of k]
    show "start_char (chunks ! k) < start_char (chunks ! Suc k)
            \<and> end_char (chunks ! k) \<le> start_char (chunks ! Suc k) + overlap" by simp
  qed
  from part1 part2 show ?thesis by blast
qed

text \<open>
  Claim C6. With an overlap that is not negative (and progress), every position \<open>i\<close> of
  the text lies in the span of an emitted chunk when no window of the run is skipped as
  blank; and, skipped windows or not, every position that holds a non-whitespace
  character does.
\<close>

theorem chunk_spans_cover:
  assumes cfg: "progress_config chunk_size overlap" and ov: "0 \<le> overlap"
      and tr: "windows text chunk_size overlap = Some (Inr ws)"
      and i: "0 \<le> i" "i < int (length text)"
      and nb: "(\<forall>w\<in>set ws. strip (py_slice text (fst w) (snd w)) \<noteq> []) \<or> \<not> isspace (text ! nat i)"
  shows "\<exists>chunks. create_chunks text url chunk_size overlap = Some (Inr chunks)
           \<and> (\<exists>c\<in>set chunks. start_char c \<le> i \<and> i < end_char c)"
proof -
  from create_chunks_windows[OF cfg, of "text" url] tr have
    cs: "create_chunks text url chunk_size overlap = Some (Inr (emit_chunks text url 0 ws))"
    and ch: "window_chain text chunk_size overlap 0 ws" by auto
  from window_chain_cover[OF cfg ov ch i] obtain a b where
    w: "(a, b) \<in> set ws" "a \<le> i" "i < b" by auto
  from window_chain_bounds[OF cfg ch w(1)] have b: "0 \<le> a" "b \<le> int (length text)" by simp_all
  have "nonblank text (a, b)"
  proof (cases "\<forall>w\<in>set ws. strip (py_slice text (fst w) (snd w)) \<noteq> []")
    case True
    with w(1) show ?thesis by (auto simp: nonblank_def)
  next
    case False
    with nb have "\<not> isspace (text ! nat i)" by blast
    moreover have "text ! nat i \<in> set (py_slice text a b)"
      using nth_in_py_slice[OF b(1) w(2,3) b(2)] .
    ultimately show ?thesis by (auto simp: nonblank_def strip_eq_Nil_iff)
  qed
  with w(1) have "(a, b) \<in> set (filter (nonblank text) ws)" by simp
  then have "(a, b) \<in> set (map (\<lambda>c. (start_char c, end_char c)) (emit_chunks text url 0 ws))"
    by (simp add: emit_chunks_spans)
  then obtain c where "c \<in> set (emit_chunks text url 0 ws)" "start_char c = a" "end_char c = b"
    by auto
  with w(2,3) cs show ?thesis by auto
qed

text \<open>
  Claim C8, as the code has it. On a configuration with progress, that is
  \<open>overlap < chunk_size\<close> and \<open>overlap \<le> max (chunk_size - 200) 0 + 1\<close>, the loop returns a
  chunk list for every text; and from every start in \<open>[0, len(text))\<close> one iteration
  leads to the start \<open>end - overlap\<close> when the window ends before the text does, a start
  that is not negative and strictly right of the previous one.
\<close>

theorem chunk_loop_terminates:
  assumes cfg: "progress_config chunk_size overlap"
  shows "(\<exists>chunks. create_chunks text url chunk_size overlap = Some (Inr chunks))
       \<and> (\<forall>start. 0 \<le> start \<and> start < int (length text) \<longrightarrow>
            (\<exists>e. window_end text chunk_size start = Inr e \<and> e \<le> int (length text)
               \<and> (e < int (length text) \<longrightarrow> 0 \<le> e - overlap \<and> start < e - overlap)
               \<and> (\<forall>idx cs. chunk_loop text url chunk_size overlap start idx cs =
                     chunk_loop text url chunk_size overlap
                       (if e < int (length text) then e - overlap else e)
                       (if strip (py_slice text start e) \<noteq> [] then idx + 1 else idx)
                       (if strip (py_slice text start e) \<noteq> []
                        then cs @ [\<lparr>chunk_id = make_chunk_id url idx,
                                     chunk_text = strip (py_slice text start e),
                                     start_char = start, end_char = e, dom_selector = None\<rparr>]
                        else cs))))"
proof (intro conjI allI impI)
  from create_chunks_windows[OF cfg, of "text" url]
  show "\<exists>chunks. create_chunks text url chunk_size overlap = Some (Inr chunks)" by blast
next
  fix start assume s: "0 \<le> start \<and> start < int (length text)"
  from window_end_progress[OF cfg, of start "text"] s obtain e where
    e: "window_end text chunk_size start = Inr e" "e \<le> int (length text)"
       "e < int (length text) \<longrightarrow> start < e - overlap" by blast
  have "\<forall>idx cs. chunk_loop text url chunk_size overlap start idx cs =
                     chunk_loop text url chunk_size overlap
                       (if e < int (length text) then e - overlap else e)
                       (if strip (py_slice text start e) \<noteq> [] then idx + 1 else idx)
                       (if strip (py_slice text start e) \<noteq> []
                        then cs @ [\<lparr>chunk_id = make_chunk_id url idx,
                                     chunk_text = strip (py_slice text start e),
                                     start_char = start, end_char = e, dom_selector = None\<rparr>]
                        else cs)"
  proof (intro allI)
    fix idx cs
    show "chunk_loop text url chunk_size overlap start idx cs =
                     chunk_loop text url chunk_size overlap
                       (if e < int (length text) then e - overlap else e)
                       (if strip (py_slice text start e) \<noteq> [] then idx + 1 else idx)
                       (if strip (py_slice text start e) \<noteq> []
                        then cs @ [\<lparr>chunk_id = make_chunk_id url idx,
                                     chunk_text = strip (py_slice text start e),
                                     start_char = start, end_char = e, dom_selector = None\<rparr>]
                        else cs)"
      using s e(1) by (subst chunk_loop.simps) simp
  qed
  moreover from e(3) s have "e < int (length text) \<longrightarrow> 0 \<le> e - overlap \<and> start < e - overlap"
    by linarith
  ultimately show "\<exists>e. window_end text chunk_size start = Inr e \<and> e \<le> int (length text)
               \<and> (e < int (length text) \<longrightarrow> 0 \<le> e - overlap \<and> start < e - overlap)
               \<and> (\<forall>idx cs. chunk_loop text url chunk_size overlap start idx cs =
                     chunk_loop text url chunk_size overlap
                       (if e < int (length text) then e - overlap else e)
                       (if strip (py_slice text start e) \<noteq> [] then idx + 1 else idx)
                       (if strip (py_slice text start e) \<noteq> []
                        then cs @ [\<lparr>chunk_id = make_chunk_id url idx,
                                     chunk_text = strip (py_slice text start e),
                                     start_char = start, end_char = e, dom_selector = None\<rparr>]
                        else cs))"
    using e(1,2) by blast
qed

section \<open>The detector on the parsed document\<close>

lemma py_in_iff: "py_in sub s \<longleftrightarrow> (\<exists>pre post. s = pre @ sub @ post)"
proof (induction s)
  case Nil
  then show ?case by simp
next
  case (Cons c cs)
  show ?case
  proof
    assume "py_in sub (c # cs)"
    then consider "prefix sub (c # cs)" | "py_in sub cs" by auto
    then show "\<exists>pre post. c # cs = pre @ sub @ post"
    proof cases
      case 1
      then obtain post where "c # cs = sub @ post" by (auto simp: prefix_def)
      then have "c # cs = [] @ sub @ post" by simp
      then show ?thesis by blast
    next
      case 2
      with Cons obtain pre post where "cs = pre @ sub @ post" by blast
      then have "c # cs = (c # pre) @ sub @ post" by simp
      then show ?thesis by blast
    qed
  next
    assume "\<exists>pre post. c # cs = pre @ sub @ post"
    then obtain pre post where e: "c # cs = pre @ sub @ post" by blast
    show "py_in sub (c # cs)"
    proof (cases pre)
      case Nil
      with e have "prefix sub (c # cs)" by (simp add: prefix_def)
      then show ?thesis by simp
    next
      case (Cons p pre')
      with e have "cs = pre' @ sub @ post" by simp
      with Cons.IH show ?thesis by auto
    qed
  qed
qed

lemma set_password_loop:
  "set (password_loop ts acc) = set acc \<union> (if ts = [] then {} else {''password''})"
  by (induction ts arbitrary: acc) auto

lemma set_card_loop:
  "set (card_loop ts acc) =
     set acc \<union> (if \<exists>t\<in>set ts. card_keyword (field_name t) then {''credit_card''} else {})"
  by (induction ts arbitrary: acc) auto

lemma detect_sensitive_inputs_eq:
  "detect_sensitive_inputs soup =
     (if \<exists>t\<in>set soup. tag_name t = ''input'' \<and> attrs t ''type'' = Some ''password''
      then {''password''} else {})
     \<union> (if \<exists>t\<in>set soup. tag_name t = ''input'' \<and> card_keyword (field_name t)
        then {''credit_card''} else {})"
proof -
  have a: "find_all soup ''input'' [(''type'', ''password'')] = []
             \<longleftrightarrow> \<not> (\<exists>t\<in>set soup. tag_name t = ''input'' \<and> attrs t ''type'' = Some ''password'')"
    by (auto simp: find_all_def filter_empty_conv)
  have b: "(\<exists>t\<in>set (find_all soup ''input'' []). card_keyword (field_name t))
             \<longleftrightarrow> (\<exists>t\<in>set soup. tag_name t = ''input'' \<and> card_keyword (field_name t))"
    by (auto simp: find_all_def)
  show ?thesis
    unfolding detect_sensitive_inputs_def set_card_loop set_password_loop a b by auto
qed

text \<open>
  Claim C2, on the parsed document. An input whose \<open>type\<close> attribute is exactly
  \<open>password\<close> puts \<open>password\<close> in the result; an input whose lower-cased name and id,
  joined by a space, contain one of \<open>card\<close>, \<open>cvv\<close>, \<open>ccv\<close>, \<open>credit\<close> puts
  \<open>credit_card\<close> in it; a document with neither has the empty result.
\<close>

theorem detect_sensitive_inputs_gate:
  "((\<exists>t\<in>set soup. tag_name t = ''input'' \<and> attrs t ''type'' = Some ''password'')
      \<longrightarrow> ''password'' \<in> detect_sensitive_inputs soup)
   \<and> ((\<exists>t\<in>set soup. tag_name t = ''input''
          \<and> (\<exists>keyword\<in>set [''card'', ''cvv'', ''ccv'', ''credit''].
               \<exists>pre post. py_lower (tag_get t ''name'' '''' @ '' '' @ tag_get t ''id'' '''')
                             = pre @ keyword @ post))
      \<longrightarrow> ''credit_card'' \<in> detect_sensitive_inputs soup)
   \<and> (\<not> (\<exists>t\<in>set soup. tag_name t = ''input'' \<and> attrs t ''type'' = Some ''password'')
      \<and> \<not> (\<exists>t\<in>set soup. tag_name t = ''input''
          \<and> (\<exists>keyword\<in>set [''card'', ''cvv'', ''ccv'', ''credit''].
               \<exists>pre post. py_lower (tag_get t ''name'' '''' @ '' '' @ tag_get t ''id'' '''')
                             = pre @ keyword @ post))
      \<longrightarrow> detect_sensitive_inputs soup = {})"
proof -
  have k: "\<And>t. card_keyword (field_name t) \<longleftrightarrow>
             (\<exists>keyword\<in>set [''card'', ''cvv'', ''ccv'', ''credit''].
               \<exists>pre post. py_lower (tag_get t ''name'' '''' @ '' '' @ tag_get t ''id'' '''')
                             = pre @ keyword @ post)"
    unfolding card_keyword_def field_name_def list_ex_iff py_in_iff by (rule refl)
  show ?thesis
    unfolding detect_sensitive_inputs_eq k[symmetric] by auto
qed

text \<open>The keyword test of the loop is the containment of a keyword.\<close>

lemma card_keyword_iff:
  "(\<exists>keyword\<in>set [''card'', ''cvv'', ''ccv'', ''credit''].
       \<exists>pre post. py_lower (tag_get t ''name'' '''' @ '' '' @ tag_get t ''id'' '''')
                             = pre @ keyword @ post)
   \<longleftrightarrow> card_keyword (field_name t)"
  unfolding card_keyword_def field_name_def list_ex_iff py_in_iff by (rule refl)

text \<open>The names of three inputs, and the keyword test on them.\<close>

lemma example_fields:
  "field_name \<lparr>tag_name = ''input'', attrs = [''type'' \<mapsto> ''password'', ''name'' \<mapsto> ''pwd'']\<rparr> = ''pwd ''"
  "field_name \<lparr>tag_name = ''input'', attrs = [''type'' \<mapsto> ''text'', ''id'' \<mapsto> ''CardNumber'']\<rparr> = '' cardnumber''"
  "field_name \<lparr>tag_name = ''input'', attrs = [''type'' \<mapsto> ''text'', ''name'' \<mapsto> ''q'']\<rparr> = ''q ''"
  by (simp_all add: field_name_def tag_get_def py_lower_def lower_char_def)

lemma example_keywords:
  "card_keyword '' cardnumber''" "\<not> card_keyword ''q ''"
  by (simp_all add: card_keyword_def)

text \<open>The theorem on a login form with a password input and an input of id
  \<open>CardNumber\<close>, and on a page whose only input is a search box.\<close>

theorem detect_sensitive_inputs_gate_witness:
  "detect_sensitive_inputs
     [\<lparr>tag_name = ''form'', attrs = Map.empty\<rparr>,
      \<lparr>tag_name = ''input'', attrs = [''type'' \<mapsto> ''password'', ''name'' \<mapsto> ''pwd'']\<rparr>,
      \<lparr>tag_name = ''input'', attrs = [''type'' \<mapsto> ''text'', ''id'' \<mapsto> ''CardNumber'']\<rparr>]
     \<supseteq> {''password'', ''credit_card''}
   \<and> detect_sensitive_inputs
     [\<lparr>tag_name = ''p'', attrs = Map.empty\<rparr>,
      \<lparr>tag_name = ''input'', attrs = [''type'' \<mapsto> ''text'', ''name'' \<mapsto> ''q'']\<rparr>] = {}"
proof -
  let ?pw = "\<lparr>tag_name = ''input'', attrs = [''type'' \<mapsto> ''password'', ''name'' \<mapsto> ''pwd'']\<rparr>"
  let ?cn = "\<lparr>tag_name = ''input'', attrs = [''type'' \<mapsto> ''text'', ''id'' \<mapsto> ''CardNumber'']\<rparr>"
  let ?q = "\<lparr>tag_name = ''input'', attrs = [''type'' \<mapsto> ''text'', ''name'' \<mapsto> ''q'']\<rparr>"
  let ?soup = "[\<lparr>tag_name = ''form'', attrs = Map.empty\<rparr>, ?pw, ?cn]"
  let ?safe = "[\<lparr>tag_name = ''p'', attrs = Map.empty\<rparr>, ?q]"
  have "tag_name ?pw = ''input'' \<and> attrs ?pw ''type'' = Some ''password''" by simp
  then have p: "\<exists>t\<in>set ?soup. tag_name t = ''input'' \<and> attrs t ''type'' = Some ''password''"
    by (intro bexI[of _ ?pw]) simp_all
  have "tag_name ?cn = ''input'' \<and> card_keyword (field_name ?cn)"
    by (simp add: example_fields example_keywords)
  then have "\<exists>t\<in>set ?soup. tag_name t = ''input'' \<and> card_keyword (field_name t)"
    by (intro bexI[of _ ?cn]) simp_all
  then have c: "\<exists>t\<in>set ?soup. tag_name t = ''input''
          \<and> (\<exists>keyword\<in>set [''card'', ''cvv'', ''ccv'', ''credit''].
               \<exists>pre post. py_lower (tag_get t ''name'' '''' @ '' '' @ tag_get t ''id'' '''')
                             = pre @ keyword @ post)"
    unfolding card_keyword_iff .
  have np: "\<not> (\<exists>t\<in>set ?safe. tag_name t = ''input'' \<and> attrs t ''type'' = Some ''password'')"
    by simp
  have "\<not> (\<exists>t\<in>set ?safe. tag_name t = ''input'' \<and> card_keyword (field_name t))"
    by (simp add: example_fields example_keywords)
  then have nc: "\<not> (\<exists>t\<in>set ?safe. tag_name t = ''input''
          \<and> (\<exists>keyword\<in>set [''card'', ''cvv'', ''ccv'', ''credit''].
               \<exists>pre post. py_lower (tag_get t ''name'' '''' @ '' '' @ tag_get t ''id'' '''')
                             = pre @ keyword @ post))"
    unfolding card_keyword_iff .
  note g1 = detect_sensitive_inputs_gate[of ?soup] and g2 = detect_sensitive_inputs_gate[of ?safe]
  from g1[THEN conjunct1, rule_format, OF p]
  have m1: "''password'' \<in> detect_sensitive_inputs ?soup" .
  from g1[THEN conjunct2, THEN conjunct1, rule_format, OF c]
  have m2: "''credit_card'' \<in> detect_sensitive_inputs ?soup" .
  from g2[THEN conjunct2, THEN conjunct2, rule_format, OF conjI[OF np nc]]
  have m3: "detect_sensitive_inputs ?safe = {}" .
  from m1 m2 m3 show ?thesis by blast
qed

section \<open>Matches\<close>

lemma try_down_Some:
  "try_down f lo k = Some m \<Longrightarrow> \<exists>j n. lo \<le> j \<and> j \<le> k \<and> f j = Some n \<and> m = j + n"
proof (induction k)
  case 0
  then show ?case by (auto split: if_splits)
next
  case (Suc k)
  show ?case
  proof (cases "f (Suc k)")
    case None
    with Suc.prems have "try_down f lo k = Some m" by (simp split: if_splits)
    from Suc.IH[OF this] show ?thesis by (metis le_Suc_eq)
  next
    case (Some n)
    with Suc.prems have "\<not> Suc k < lo" "m = Suc k + n" by (auto split: if_splits)
    with Some show ?thesis by (intro exI[of _ "Suc k"] exI[of _ n]) simp
  qed
qed

lemma greedy_count_chars:
  assumes "j \<le> greedy_count p hi s"
  shows "j \<le> length s \<and> (\<forall>c\<in>set (take j s). p c)"
proof -
  have "greedy_count p hi s \<le> length (takeWhile p s)"
    by (simp add: greedy_count_def Let_def split: option.splits)
  with assms have j: "j \<le> length (takeWhile p s)" by simp
  have "length (takeWhile p s) \<le> length s" by (rule length_takeWhile_le)
  with j have a: "j \<le> length s" by simp
  have "take j s = take j (takeWhile p s @ dropWhile p s)" by simp
  also have "\<dots> = take j (takeWhile p s)" using j by (simp del: takeWhile_dropWhile_id)
  finally have "set (take j s) \<subseteq> set (takeWhile p s)" by (simp add: set_take_subset)
  then have "\<forall>c\<in>set (take j s). p c" by (auto dest: set_takeWhileD)
  with a show ?thesis by simp
qed


text \<open>A match holds a character for every item that needs one.\<close>

lemma re_match_needs:
  "re_match its prev s = Some n \<Longrightarrow> Rep p lo hi \<in> set its \<Longrightarrow> 1 \<le> lo \<Longrightarrow> \<exists>c\<in>set (take n s). p c"
proof (induction its arbitrary: prev s n)
  case Nil
  then show ?case by simp
next
  case (Cons it its)
  show ?case
  proof (cases it)
    case Boundary
    with Cons.prems have "re_match its prev s = Some n" "Rep p lo hi \<in> set its"
      by (simp_all split: if_splits)
    from Cons.IH[OF this Cons.prems(3)] show ?thesis .
  next
    case (Rep p' lo' hi')
    with Cons.prems have "try_down (\<lambda>k. re_match its (if k = 0 then prev else Some (s ! (k - 1))) (drop k s))
            lo' (greedy_count p' hi' s) = Some n" by simp
    from try_down_Some[OF this] obtain j n' where
      lo: "lo' \<le> j" and j: "j \<le> greedy_count p' hi' s"
      and m: "re_match its (if j = 0 then prev else Some (s ! (j - 1))) (drop j s) = Some n'"
      and n: "n = j + n'" by blast
    from greedy_count_chars[OF j] have js: "j \<le> length s" and jp: "\<forall>c\<in>set (take j s). p' c" by simp_all
    have t: "take n s = take j s @ take n' (drop j s)" unfolding n by (rule take_add)
    show ?thesis
    proof (cases "Rep p lo hi = it")
      case True
      with Rep Cons.prems(3) lo have "p' = p" "1 \<le> j" by simp_all
      with js have "take j s \<noteq> []" by auto
      then obtain c where "c \<in> set (take j s)" by (cases "take j s") auto
      with jp \<open>p' = p\<close> t show ?thesis by auto
    next
      case False
      with Cons.prems(2) have "Rep p lo hi \<in> set its" by auto
      from Cons.IH[OF m this Cons.prems(3)] t show ?thesis by auto
    qed
  qed
qed

lemma re_match_nonempty:
  assumes "Rep p lo hi \<in> set its" "1 \<le> lo"
  shows "re_match its prev s \<noteq> Some 0"
proof
  assume "re_match its prev s = Some 0"
  from re_match_needs[OF this assms] show False by simp
qed

section \<open>Substitution\<close>





section \<open>The redaction passes\<close>



lemma pattern_needs:
  "Rep is_digit 4 (Some 4) \<in> set credit_card_pattern"
  "Rep is_digit 3 (Some 3) \<in> set ssn_pattern"
  "Rep email_local 1 None \<in> set email_pattern"
  by (simp_all add: credit_card_pattern_def ssn_pattern_def email_pattern_def)


text \<open>None of the five patterns of the module matches the empty string.\<close>

lemma patterns_never_empty:
  "re_match blank_lines_pattern prev s \<noteq> Some 0"
  "re_match spaces_pattern prev s \<noteq> Some 0"
  "re_match credit_card_pattern prev s \<noteq> Some 0"
  "re_match ssn_pattern prev s \<noteq> Some 0"
  "re_match email_pattern prev s \<noteq> Some 0"
proof -
  show "re_match blank_lines_pattern prev s \<noteq> Some 0"
    by (rule re_match_nonempty[of "\<lambda>c. c = CHR ''\<newline>''" 1 "Some 1"])
       (simp_all add: blank_lines_pattern_def)
  show "re_match spaces_pattern prev s \<noteq> Some 0"
    by (rule re_match_nonempty[of "\<lambda>c. c = CHR '' ''" 1 None]) (simp_all add: spaces_pattern_def)
  show "re_match credit_card_pattern prev s \<noteq> Some 0"
    by (rule re_match_nonempty[OF pattern_needs(1)]) simp
  show "re_match ssn_pattern prev s \<noteq> Some 0"
    by (rule re_match_nonempty[OF pattern_needs(2)]) simp
  show "re_match email_pattern prev s \<noteq> Some 0"
    by (rule re_match_nonempty[OF pattern_needs(3)]) simp
qed


text \<open>A page with a card number, an email address and an SSN, spread over lines.\<close>

lemma example_page:
  "clean_and_redact ''Pay  4111 1111 1111 1111 now.\<newline> \<newline>\<newline>Mail bob.x@ex-ample.co.uk or 078-05-1120 ''
     = ''Pay [REDACTED_CREDIT_CARD] now.\<newline>\<newline>Mail [REDACTED_EMAIL] or [REDACTED_SSN]''"
  by code_simp




section \<open>A worked run\<close>

lemmas chunker_eval = create_chunks_def windows_def chunk_loop.simps window_loop.simps window_end_def
  py_slice_def slice_bound_def strip_def isspace_def range_down_def py_getitem_def upto.simps Let_def

text \<open>The chunks of \<open>Hi. Go on now\<close> for windows of 5 with overlap 1.\<close>

lemma example_run:
  "create_chunks ''Hi. Go on now'' ''u'' 5 1 =
     Some (Inr [\<lparr>chunk_id = make_chunk_id ''u'' 0, chunk_text = ''Hi.'', start_char = 0, end_char = 3,
                   dom_selector = None\<rparr>,
                \<lparr>chunk_id = make_chunk_id ''u'' 1, chunk_text = ''. Go'', start_char = 2, end_char = 7,
                   dom_selector = None\<rparr>,
                \<lparr>chunk_id = make_chunk_id ''u'' 2, chunk_text = ''on n'', start_char = 6, end_char = 11,
                   dom_selector = None\<rparr>,
                \<lparr>chunk_id = make_chunk_id ''u'' 3, chunk_text = ''now'', start_char = 10, end_char = 13,
                   dom_selector = None\<rparr>])"
  by (simp add: chunker_eval numeral_2_eq_2 numeral_3_eq_3)

lemma example_windows:
  "windows ''Hi. Go on now'' 5 1 = Some (Inr [(0, 3), (2, 7), (6, 11), (10, 13)])"
  by (simp add: chunker_eval)

lemma example_config: "progress_config 5 1"
  by (simp add: progress_config_def)

text \<open>The chunks of \<open>abcde\<close> for windows of 3 with overlap 2.\<close>

lemma short_run:
  "create_chunks ''abcde'' ''u'' 3 2 =
     Some (Inr [\<lparr>chunk_id = make_chunk_id ''u'' 0, chunk_text = ''abc'', start_char = 0, end_char = 3,
                   dom_selector = None\<rparr>,
                \<lparr>chunk_id = make_chunk_id ''u'' 1, chunk_text = ''bcd'', start_char = 1, end_char = 4,
                   dom_selector = None\<rparr>,
                \<lparr>chunk_id = make_chunk_id ''u'' 2, chunk_text = ''cde'', start_char = 2, end_char = 5,
                   dom_selector = None\<rparr>])"
  by (simp add: chunker_eval numeral_2_eq_2 numeral_3_eq_3)

text \<open>The theorem on the text \<open>abcde\<close>, windows of 3 with overlap 2, a configuration
  that loops on other texts.\<close>

theorem chunk_spans_monotonic_witness:
  "(0::int) \<le> 3
   \<and> create_chunks ''abcde'' ''u'' 3 2 =
     Some (Inr [\<lparr>chunk_id = make_chunk_id ''u'' 0, chunk_text = ''abc'', start_char = 0, end_char = 3,
                   dom_selector = None\<rparr>,
                \<lparr>chunk_id = make_chunk_id ''u'' 1, chunk_text = ''bcd'', start_char = 1, end_char = 4,
                   dom_selector = None\<rparr>,
                \<lparr>chunk_id = make_chunk_id ''u'' 2, chunk_text = ''cde'', start_char = 2, end_char = 5,
                   dom_selector = None\<rparr>])
   \<and> (0::int) < 1 \<and> (3::int) \<le> 1 + 2 \<and> (1::int) < 2 \<and> (4::int) \<le> 2 + 2"
proof -
  have z: "(0::int) \<le> 3" by simp
  note m = chunk_spans_monotonic[OF z short_run, THEN conjunct2, rule_format]
  from m[of 0] m[of 1]
  have "(0::int) < 1 \<and> (3::int) \<le> 1 + 2 \<and> (1::int) < 2 \<and> (4::int) \<le> 2 + 2" by simp
  with z short_run show ?thesis by blast
qed

text \<open>The theorem at position 9 of the same run, a space that the third chunk covers.\<close>

theorem chunk_spans_cover_witness:
  "progress_config 5 1 \<and> (0::int) \<le> 1
   \<and> windows ''Hi. Go on now'' 5 1 = Some (Inr [(0, 3), (2, 7), (6, 11), (10, 13)])
   \<and> (0::int) \<le> 9 \<and> (9::int) < int (length ''Hi. Go on now'')
   \<and> isspace (''Hi. Go on now'' ! nat 9)
   \<and> (\<exists>chunks. create_chunks ''Hi. Go on now'' ''u'' 5 1 = Some (Inr chunks)
         \<and> (\<exists>c\<in>set chunks. start_char c \<le> 9 \<and> 9 < end_char c))"
proof -
  have o: "(0::int) \<le> 1" and i0: "(0::int) \<le> 9" and i1: "(9::int) < int (length ''Hi. Go on now'')"
    by simp_all
  have sp: "isspace (''Hi. Go on now'' ! nat 9)" by (simp add: isspace_def)
  have nb: "(\<forall>w\<in>set [(0, 3), (2, 7), (6, 11), (10::int, 13::int)].
               strip (py_slice ''Hi. Go on now'' (fst w) (snd w)) \<noteq> [])
            \<or> \<not> isspace (''Hi. Go on now'' ! nat 9)"
    by (simp add: strip_def py_slice_def slice_bound_def isspace_def)
  from chunk_spans_cover[OF example_config o example_windows i0 i1 nb, of "''u''"]
  have "\<exists>chunks. create_chunks ''Hi. Go on now'' ''u'' 5 1 = Some (Inr chunks)
         \<and> (\<exists>c\<in>set chunks. start_char c \<le> 9 \<and> 9 < end_char c)" .
  with example_config o example_windows i0 i1 sp show ?thesis by blast
qed

text \<open>The theorem on the same run.\<close>

theorem chunk_ids_by_index_witness:
  "create_chunks ''Hi. Go on now'' ''u'' 5 1 =
     Some (Inr [\<lparr>chunk_id = make_chunk_id ''u'' 0, chunk_text = ''Hi.'', start_char = 0, end_char = 3,
                   dom_selector = None\<rparr>,
                \<lparr>chunk_id = make_chunk_id ''u'' 1, chunk_text = ''. Go'', start_char = 2, end_char = 7,
                   dom_selector = None\<rparr>,
                \<lparr>chunk_id = make_chunk_id ''u'' 2, chunk_text = ''on n'', start_char = 6, end_char = 11,
                   dom_selector = None\<rparr>,
                \<lparr>chunk_id = make_chunk_id ''u'' 3, chunk_text = ''now'', start_char = 10, end_char = 13,
                   dom_selector = None\<rparr>])
   \<and> length (make_chunk_id ''u'' 0) = 16 \<and> length (make_chunk_id ''u'' 3) = 16"
proof -
  note a = chunk_ids_by_index[OF example_run, THEN conjunct2, rule_format]
  from a[of 0] have "length (make_chunk_id ''u'' 0) = 16" by simp
  moreover from a[of 3] have "length (make_chunk_id ''u'' 3) = 16" by simp
  ultimately show ?thesis using example_run by blast
qed

text \<open>The theorem on the second chunk of the same run.\<close>

theorem chunk_text_trimmed_slice_witness:
  "(0::int) \<le> 5
   \<and> create_chunks ''Hi. Go on now'' ''u'' 5 1 =
     Some (Inr [\<lparr>chunk_id = make_chunk_id ''u'' 0, chunk_text = ''Hi.'', start_char = 0, end_char = 3,
                   dom_selector = None\<rparr>,
                \<lparr>chunk_id = make_chunk_id ''u'' 1, chunk_text = ''. Go'', start_char = 2, end_char = 7,
                   dom_selector = None\<rparr>,
                \<lparr>chunk_id = make_chunk_id ''u'' 2, chunk_text = ''on n'', start_char = 6, end_char = 11,
                   dom_selector = None\<rparr>,
                \<lparr>chunk_id = make_chunk_id ''u'' 3, chunk_text = ''now'', start_char = 10, end_char = 13,
                   dom_selector = None\<rparr>])
   \<and> ''. Go'' = strip (py_slice ''Hi. Go on now'' 2 7)
   \<and> int (length ''. Go'') \<le> 7 - 2"
proof -
  have z: "(0::int) \<le> 5" by simp
  have mem: "\<lparr>chunk_id = make_chunk_id ''u'' 1, chunk_text = ''. Go'', start_char = 2, end_char = 7,
            dom_selector = None\<rparr>
     \<in> set [\<lparr>chunk_id = make_chunk_id ''u'' 0, chunk_text = ''Hi.'', start_char = 0, end_char = 3,
                   dom_selector = None\<rparr>,
                \<lparr>chunk_id = make_chunk_id ''u'' 1, chunk_text = ''. Go'', start_char = 2, end_char = 7,
                   dom_selector = None\<rparr>,
                \<lparr>chunk_id = make_chunk_id ''u'' 2, chunk_text = ''on n'', start_char = 6, end_char = 11,
                   dom_selector = None\<rparr>,
                \<lparr>chunk_id = make_chunk_id ''u'' 3, chunk_text = ''now'', start_char = 10, end_char = 13,
                   dom_selector = None\<rparr>]"
    by simp
  note t = chunk_text_trimmed_slice[OF z example_run mem]
  from t[THEN conjunct1] have "''. Go'' = strip (py_slice ''Hi. Go on now'' 2 7)" by simp
  moreover from t[THEN conjunct2, THEN conjunct2, THEN conjunct1]
  have "int (length ''. Go'') \<le> 7 - 2" by simp
  ultimately show ?thesis using z example_run by blast
qed

lemma default_config: "progress_config 1000 200"
  by (simp add: progress_config_def)

text \<open>The theorem on the defaults, and at the first window of the same run.\<close>

theorem chunk_loop_terminates_witness:
  "progress_config 1000 200
   \<and> (\<exists>chunks. create_chunks_default ''Hi. Go on now'' ''u'' = Some (Inr chunks))
   \<and> progress_config 5 1
   \<and> (\<exists>e. window_end ''Hi. Go on now'' 5 0 = Inr e \<and> e < 13 \<and> 0 \<le> e - 1 \<and> 0 < e - 1)"
proof -
  from chunk_loop_terminates[OF default_config, of "''Hi. Go on now''" "''u''"]
  have a: "\<exists>chunks. create_chunks_default ''Hi. Go on now'' ''u'' = Some (Inr chunks)"
    by (simp add: create_chunks_default_def)
  have w: "window_end ''Hi. Go on now'' 5 0 = Inr 3"
    by (simp add: chunker_eval)
  from chunk_loop_terminates[OF example_config, of "''Hi. Go on now''" "''u''"]
  have "\<exists>e. window_end ''Hi. Go on now'' 5 0 = Inr e \<and> e \<le> 13
          \<and> (e < 13 \<longrightarrow> 0 \<le> e - 1 \<and> 0 < e - 1)"
    by (auto dest!: spec[of _ "0::int"])
  with w have "\<exists>e. window_end ''Hi. Go on now'' 5 0 = Inr e \<and> e < 13 \<and> 0 \<le> e - 1 \<and> 0 < e - 1"
    by auto
  with default_config a example_config show ?thesis by blast
qed

lemma chunk_loop_cycle:
  assumes "chunk_loop text url chunk_size overlap start chunk_index chunks = Some y"
  shows "\<not> (text = ''a.cdefg'' \<and> chunk_size = 3 \<and> overlap = 2 \<and> start = 0)"
proof (rule chunk_loop.raw_induct[where P = "\<lambda>text url chunk_size overlap start chunk_index chunks y.
         \<not> (text = ''a.cdefg'' \<and> chunk_size = 3 \<and> overlap = 2 \<and> start = 0)", OF _ assms], goal_cases)
  case (1 loop t u sz ov s i c y)
  note IH = 1(1) and body = 1(2)
  show ?case
  proof
    assume A: "t = ''a.cdefg'' \<and> sz = 3 \<and> ov = 2 \<and> s = 0"
    then have w: "window_end t sz s = Inr 2"
      by (simp add: window_end_def range_down_def py_getitem_def upto.simps Let_def)
    from A have lt: "s < int (length t)" by simp
    from A have lt2: "(2::int) < int (length t)" by simp
    note b = body[unfolded if_P[OF lt] w sum.case if_P[OF lt2]]
    from IH[OF b] A show False by simp
  qed
qed

text \<open>Claim C8 as stated fails: with \<open>overlap = 2 < chunk_size = 3\<close> the text
  \<open>a.cdefg\<close> is never chunked. The first window ends after the full stop, at 2, and the
  next window starts at \<open>2 - 2 = 0\<close> again.\<close>

theorem create_chunks_overlap_lt_size_diverges:
  "(2::int) < 3 \<and> create_chunks ''a.cdefg'' ''u'' 3 2 = None"
proof -
  have "create_chunks ''a.cdefg'' ''u'' 3 2 = None"
  proof (cases "create_chunks ''a.cdefg'' ''u'' 3 2")
    case None
    then show ?thesis .
  next
    case (Some y)
    then have "chunk_loop ''a.cdefg'' ''u'' 3 2 0 0 [] = Some y" by (simp add: create_chunks_def)
    from chunk_loop_cycle[OF this] show ?thesis by simp
  qed
  then show ?thesis by simp
qed

text \<open>The digest of \<open>abc\<close>, as in RFC 1321.\<close>

lemma md5_test_vector: "md5_hexdigest (utf8_encode ''abc'') = ''900150983cd24fb0d6963f7d28e17f72''"
  by code_simp

end
